theory Spec2Isabelle
  imports Main "HOL-Library.Multiset"
begin

section \<open>Data model\<close>

text \<open>
  A puzzle state is a Python list of rows, each row a list of integers. Nothing in the
  program fixes the shape, so the model keeps nested lists and makes every subscript that
  can leave the list an explicit \<open>IndexError\<close>. Unpacking the \<open>None\<close> that
  \<open>get_blank_position\<close> returns on a state without a zero is a \<open>TypeError\<close>.
  Rows are values here: a state whose rows are one shared list object is outside the model
  (a state holding each of 0..8 once cannot have two equal rows).
\<close>

type_synonym grid = "int list list"

datatype error = IndexError | TypeError

text \<open>Class \<open>PuzzleNode\<close>: the four fields set by \<open>__init__\<close>.\<close>

datatype node =
  PuzzleNode (node_state: grid) (node_parent: "node option") (node_g: int) (node_h: int)

text \<open>\<open>PuzzleNode.__lt__\<close>: compares g + h only.\<close>

definition node_lt :: "node \<Rightarrow> node \<Rightarrow> bool" where
  "node_lt self other \<longleftrightarrow> node_g self + node_h self < node_g other + node_h other"

text \<open>The module-level constants.\<close>

definition initial_state :: grid where
  "initial_state = [[2, 1, 7], [8, 0, 6], [3, 4, 5]]"

definition goal_state :: grid where
  "goal_state = [[2, 3, 4], [7, 0, 1], [8, 5, 6]]"

section \<open>Grid operations\<close>

text \<open>\<open>state[i][j]\<close> for non-negative \<open>i\<close>, \<open>j\<close>.\<close>

definition cell :: "grid \<Rightarrow> nat \<Rightarrow> nat \<Rightarrow> error + int" where
  "cell state i j =
     (if i < length state \<and> j < length (state ! i) then Inr (state ! i ! j)
      else Inl IndexError)"

text \<open>The index pairs visited by \<open>for i in range(3): for j in range(3)\<close>, in order.\<close>

definition positions :: "(nat \<times> nat) list" where
  "positions = concat (map (\<lambda>i. map (\<lambda>j. (i, j)) [0..<3]) [0..<3])"

text \<open>
  \<open>manhattan_distance\<close>: the double loop with its accumulator. Python's \<open>divmod\<close>
  on integers is floor division, as \<open>div\<close> and \<open>mod\<close> on \<open>int\<close> are.
\<close>

fun manhattan_loop :: "grid \<Rightarrow> (nat \<times> nat) list \<Rightarrow> int \<Rightarrow> error + int" where
  "manhattan_loop state [] distance = Inr distance"
| "manhattan_loop state ((i, j) # rest) distance =
     (case cell state i j of
        Inl e \<Rightarrow> Inl e
      | Inr v \<Rightarrow>
          if v \<noteq> 0 then
            (let x = (v - 1) div 3; y = (v - 1) mod 3
             in manhattan_loop state rest (distance + (\<bar>x - int i\<bar> + \<bar>y - int j\<bar>)))
          else manhattan_loop state rest distance)"

definition manhattan_distance :: "grid \<Rightarrow> error + int" where
  "manhattan_distance state = manhattan_loop state positions 0"

text \<open>
  \<open>get_blank_position\<close>: returns at the first zero; falling off the loops returns
  \<open>None\<close>.
\<close>

fun blank_loop :: "grid \<Rightarrow> (nat \<times> nat) list \<Rightarrow> error + (nat \<times> nat) option" where
  "blank_loop state [] = Inr None"
| "blank_loop state ((i, j) # rest) =
     (case cell state i j of
        Inl e \<Rightarrow> Inl e
      | Inr v \<Rightarrow> if v = 0 then Inr (Some (i, j)) else blank_loop state rest)"

definition get_blank_position :: "grid \<Rightarrow> error + (nat \<times> nat) option" where
  "get_blank_position state = blank_loop state positions"

definition moves :: "(int \<times> int) list" where
  "moves = [(1, 0), (- 1, 0), (0, 1), (0, - 1)]"

text \<open>
  The tuple assignment on the deep copy: both right-hand sides are read first, then the
  two cells are written, left target first.
\<close>

definition swap_cells :: "grid \<Rightarrow> nat \<Rightarrow> nat \<Rightarrow> nat \<Rightarrow> nat \<Rightarrow> error + grid" where
  "swap_cells state i j new_i new_j =
     (case cell state new_i new_j of
        Inl e \<Rightarrow> Inl e
      | Inr a \<Rightarrow>
          (case cell state i j of
             Inl e \<Rightarrow> Inl e
           | Inr b \<Rightarrow>
               (let s1 = state[i := (state ! i)[j := a]];
                    s2 = s1[new_i := (s1 ! new_i)[new_j := b]]
                in Inr s2)))"

fun neighbors_loop ::
  "grid \<Rightarrow> nat \<Rightarrow> nat \<Rightarrow> (int \<times> int) list \<Rightarrow> grid list \<Rightarrow> error + grid list" where
  "neighbors_loop state i j [] neighbors = Inr neighbors"
| "neighbors_loop state i j (move # rest) neighbors =
     (let new_i = int i + fst move; new_j = int j + snd move in
      if 0 \<le> new_i \<and> new_i < 3 \<and> 0 \<le> new_j \<and> new_j < 3 then
        (case swap_cells state i j (nat new_i) (nat new_j) of
           Inl e \<Rightarrow> Inl e
         | Inr new_state \<Rightarrow> neighbors_loop state i j rest (neighbors @ [new_state]))
      else neighbors_loop state i j rest neighbors)"

definition get_neighbors :: "grid \<Rightarrow> error + grid list" where
  "get_neighbors state =
     (case get_blank_position state of
        Inl e \<Rightarrow> Inl e
      | Inr None \<Rightarrow> Inl TypeError
      | Inr (Some (i, j)) \<Rightarrow> neighbors_loop state i j moves [])"

section \<open>The frontier: \<open>heapq\<close> on a list of nodes\<close>

text \<open>
  \<open>heapq\<close> is the standard library's binary heap on a list; its only use of the
  elements is \<open>__lt__\<close>. \<open>siftdown_loop\<close> is the loop of \<open>_siftdown\<close>,
  \<open>siftup_loop\<close> the loop of \<open>_siftup\<close>.
\<close>

function siftdown_loop :: "node list \<Rightarrow> nat \<Rightarrow> nat \<Rightarrow> node \<Rightarrow> node list" where
  "siftdown_loop heap startpos pos newitem =
     (if pos > startpos then
        (let parentpos = (pos - 1) div 2; parent = heap ! parentpos in
         if node_lt newitem parent
         then siftdown_loop (heap[pos := parent]) startpos parentpos newitem
         else heap[pos := newitem])
      else heap[pos := newitem])"
  by pat_completeness auto
termination
  by (relation "measure (\<lambda>(heap, startpos, pos, newitem). pos)") auto

declare siftdown_loop.simps [simp del]

definition siftdown :: "node list \<Rightarrow> nat \<Rightarrow> nat \<Rightarrow> node list" where
  "siftdown heap startpos pos = siftdown_loop heap startpos pos (heap ! pos)"

function siftup_loop :: "node list \<Rightarrow> nat \<Rightarrow> nat \<Rightarrow> node list \<times> nat" where
  "siftup_loop heap endpos pos =
     (let childpos = 2 * pos + 1 in
      if childpos < endpos then
        (let rightpos = childpos + 1;
             childpos' =
               (if rightpos < endpos \<and> \<not> node_lt (heap ! childpos) (heap ! rightpos)
                then rightpos else childpos)
         in siftup_loop (heap[pos := heap ! childpos']) endpos childpos')
      else (heap, pos))"
  by pat_completeness auto
termination
  by (relation "measure (\<lambda>(heap, endpos, pos). endpos - pos)") (auto simp: Let_def)

declare siftup_loop.simps [simp del]

definition siftup :: "node list \<Rightarrow> nat \<Rightarrow> node list" where
  "siftup heap pos =
     (let newitem = heap ! pos;
          (heap1, pos1) = siftup_loop heap (length heap) pos
      in siftdown (heap1[pos1 := newitem]) pos pos1)"

definition heappush :: "node list \<Rightarrow> node \<Rightarrow> node list" where
  "heappush heap item = siftdown (heap @ [item]) 0 (length heap)"

text \<open>\<open>heappop\<close> is only called on a non-empty list (the loop condition).\<close>

definition heappop :: "node list \<Rightarrow> node \<times> node list" where
  "heappop heap =
     (let lastelt = last heap; heap1 = butlast heap in
      if heap1 \<noteq> [] then (heap1 ! 0, siftup (heap1[0 := lastelt]) 0)
      else (lastelt, heap1))"

section \<open>The search\<close>

text \<open>The parent walk of the success branch, before the reversal.\<close>

fun path_to :: "node \<Rightarrow> grid list" where
  "path_to (PuzzleNode s p gv hv) = s # (case p of None \<Rightarrow> [] | Some q \<Rightarrow> path_to q)"

text \<open>The \<open>for neighbor_state in ...\<close> loop, pushing onto the frontier.\<close>

fun push_neighbors :: "node \<Rightarrow> grid set \<Rightarrow> grid list \<Rightarrow> node list \<Rightarrow> error + node list" where
  "push_neighbors current_node closed_list [] open_list = Inr open_list"
| "push_neighbors current_node closed_list (neighbor_state # rest) open_list =
     (if neighbor_state \<notin> closed_list then
        (case manhattan_distance neighbor_state of
           Inl e \<Rightarrow> Inl e
         | Inr hv \<Rightarrow>
             push_neighbors current_node closed_list rest
               (heappush open_list
                  (PuzzleNode neighbor_state (Some current_node) (node_g current_node + 1) hv)))
      else push_neighbors current_node closed_list rest open_list)"

text \<open>
  One pass through the body of \<open>while open_list\<close>: it returns, raises, or leaves a new
  frontier and explored set.
\<close>

datatype step = Finished "error + grid list option" | Next "node list" "grid set"

definition search_step :: "node list \<Rightarrow> grid set \<Rightarrow> step" where
  "search_step open_list closed_list =
     (let (current_node, open1) = heappop open_list in
      if node_state current_node = goal_state
      then Finished (Inr (Some (rev (path_to current_node))))
      else
        (let closed1 = insert (node_state current_node) closed_list in
         case get_neighbors (node_state current_node) of
           Inl e \<Rightarrow> Finished (Inl e)
         | Inr ns \<Rightarrow>
             (case push_neighbors current_node closed1 ns open1 of
                Inl e \<Rightarrow> Finished (Inl e)
              | Inr open2 \<Rightarrow> Next open2 closed1)))"

text \<open>
  The loop may, as far as its definition goes, run forever: the result \<open>None\<close> of
  \<open>search_loop\<close> stands for that. \<open>Some (Inr None)\<close> is Python's \<open>return None\<close>.
\<close>

partial_function (option) search_loop ::
  "node list \<Rightarrow> grid set \<Rightarrow> (error + grid list option) option" where
  "search_loop open_list closed_list =
     (if open_list = [] then Some (Inr None)
      else
        (case search_step open_list closed_list of
           Finished r \<Rightarrow> Some r
         | Next open2 closed1 \<Rightarrow> search_loop open2 closed1))"

declare search_loop.simps [code]

definition solve_puzzle :: "grid \<Rightarrow> (error + grid list option) option" where
  "solve_puzzle initial =
     (case manhattan_distance initial of
        Inl e \<Rightarrow> Some (Inl e)
      | Inr h0 \<Rightarrow> search_loop [PuzzleNode initial None 0 h0] {})"

section \<open>Valid grids\<close>

definition three_by_three :: "grid \<Rightarrow> bool" where
  "three_by_three s \<longleftrightarrow> length s = 3 \<and> (\<forall>r\<in>set s. length r = 3)"

text \<open>A 3x3 grid containing each of 0..8 exactly once.\<close>

definition valid_grid :: "grid \<Rightarrow> bool" where
  "valid_grid s \<longleftrightarrow> three_by_three s \<and> mset (concat s) = mset [0, 1, 2, 3, 4, 5, 6, 7, 8]"

text \<open>Where the blank is: the three kinds of cell of the claim about neighbour counts.\<close>

definition corner :: "nat \<times> nat \<Rightarrow> bool" where
  "corner p \<longleftrightarrow> (fst p = 0 \<or> fst p = 2) \<and> (snd p = 0 \<or> snd p = 2)"

definition center :: "nat \<times> nat \<Rightarrow> bool" where
  "center p \<longleftrightarrow> fst p = 1 \<and> snd p = 1"

definition edge :: "nat \<times> nat \<Rightarrow> bool" where
  "edge p \<longleftrightarrow> (fst p = 1 \<and> (snd p = 0 \<or> snd p = 2)) \<or> (snd p = 1 \<and> (fst p = 0 \<or> fst p = 2))"

text \<open>
  One legal move, in the words of the specification: the blank at \<open>p\<close> and the tile at an
  axis-adjacent cell \<open>q\<close> change places, and no other cell changes.
\<close>

definition at :: "grid \<Rightarrow> nat \<times> nat \<Rightarrow> int" where
  "at s p = s ! fst p ! snd p"

definition adjacent :: "nat \<times> nat \<Rightarrow> nat \<times> nat \<Rightarrow> bool" where
  "adjacent p q \<longleftrightarrow>
     (fst p = fst q \<and> (snd p = Suc (snd q) \<or> snd q = Suc (snd p))) \<or>
     (snd p = snd q \<and> (fst p = Suc (fst q) \<or> fst q = Suc (fst p)))"

definition blank_move :: "grid \<Rightarrow> grid \<Rightarrow> bool" where
  "blank_move s t \<longleftrightarrow>
     three_by_three t \<and>
     (\<exists>p\<in>set positions. \<exists>q\<in>set positions.
        adjacent p q \<and> at s p = 0 \<and> at t p = at s q \<and> at t q = 0 \<and>
        (\<forall>r\<in>set positions. r \<noteq> p \<and> r \<noteq> q \<longrightarrow> at t r = at s r))"

text \<open>A sequence of grids in which each step is one legal move.\<close>

fun legal_path :: "grid list \<Rightarrow> bool" where
  "legal_path [] = False"
| "legal_path [s] = True"
| "legal_path (s # t # rest) = (blank_move s t \<and> legal_path (t # rest))"

text \<open>
  The heuristic as the specification words it, for any goal grid: the goal cell of a value
  is found by scanning the goal grid, and each non-blank cell adds its L1 distance to it.
\<close>

definition goal_position :: "grid \<Rightarrow> int \<Rightarrow> nat \<times> nat" where
  "goal_position goal v = hd ([p \<leftarrow> positions. at goal p = v] @ [(0, 0)])"

definition l1_distance :: "nat \<times> nat \<Rightarrow> nat \<times> nat \<Rightarrow> int" where
  "l1_distance p q = \<bar>int (fst p) - int (fst q)\<bar> + \<bar>int (snd p) - int (snd q)\<bar>"

definition distance_to :: "grid \<Rightarrow> grid \<Rightarrow> int" where
  "distance_to goal s =
     (\<Sum>p\<leftarrow>positions. if at s p \<noteq> 0 then l1_distance p (goal_position goal (at s p)) else 0)"

definition solved_grid :: grid where
  "solved_grid = [[1, 2, 3], [4, 5, 6], [7, 8, 0]]"

text \<open>The contribution of one cell to \<open>manhattan_distance\<close>, and the value on a grid
  where no subscript fails.\<close>

definition tile_cost :: "int \<Rightarrow> nat \<Rightarrow> nat \<Rightarrow> int" where
  "tile_cost v i j =
     (if v \<noteq> 0 then \<bar>(v - 1) div 3 - int i\<bar> + \<bar>(v - 1) mod 3 - int j\<bar> else 0)"

definition hval :: "grid \<Rightarrow> int" where
  "hval s = (case manhattan_distance s of Inr v \<Rightarrow> v | Inl e \<Rightarrow> 0)"

text \<open>
  What the proofs below use of one move: the shape stays, the cells are permuted, and the
  heuristic changes by at most one.
\<close>

definition moved :: "grid \<Rightarrow> grid \<Rightarrow> bool" where
  "moved s n \<longleftrightarrow>
     three_by_three n \<and> mset (concat n) = mset (concat s) \<and> \<bar>hval n - hval s\<bar> \<le> 1"

text \<open>The neighbours of a state when \<open>get_neighbors\<close> raises nothing, else none.\<close>

definition nbs :: "grid \<Rightarrow> grid list" where
  "nbs s = (case get_neighbors s of Inr ns \<Rightarrow> ns | Inl e \<Rightarrow> [])"

section \<open>Heap order\<close>

text \<open>The sum that \<open>__lt__\<close> compares.\<close>

definition node_f :: "node \<Rightarrow> int" where
  "node_f n = node_g n + node_h n"

text \<open>
  The heap order on a list: no entry is less than its parent at \<open>(i - 1) div 2\<close>. The two
  weaker forms hold while a sift is under way: in \<open>heap_except_up\<close> the entry at \<open>i\<close>
  may be less than its parent, in \<open>heap_hole\<close> the entry at \<open>i\<close> is not looked at.
\<close>

definition is_heap :: "node list \<Rightarrow> bool" where
  "is_heap xs \<longleftrightarrow>
     (\<forall>x. 0 < x \<and> x < length xs \<longrightarrow> node_f (xs ! ((x - 1) div 2)) \<le> node_f (xs ! x))"

definition heap_except_up :: "node list \<Rightarrow> nat \<Rightarrow> bool" where
  "heap_except_up xs i \<longleftrightarrow>
     (\<forall>x. 0 < x \<and> x < length xs \<longrightarrow>
        (x \<noteq> i \<longrightarrow> node_f (xs ! ((x - 1) div 2)) \<le> node_f (xs ! x)) \<and>
        ((x - 1) div 2 = i \<and> 0 < i \<longrightarrow> node_f (xs ! ((i - 1) div 2)) \<le> node_f (xs ! x)))"

definition heap_hole :: "node list \<Rightarrow> nat \<Rightarrow> bool" where
  "heap_hole xs i \<longleftrightarrow>
     (\<forall>x. 0 < x \<and> x < length xs \<longrightarrow>
        (x \<noteq> i \<and> (x - 1) div 2 \<noteq> i \<longrightarrow> node_f (xs ! ((x - 1) div 2)) \<le> node_f (xs ! x)) \<and>
        ((x - 1) div 2 = i \<and> 0 < i \<longrightarrow> node_f (xs ! ((i - 1) div 2)) \<le> node_f (xs ! x)))"

section \<open>Routes and the invariant of the search\<close>

text \<open>A route from \<open>a\<close> to \<open>b\<close>: a sequence of legal moves; it has \<open>length p - 1\<close> moves.\<close>

definition route :: "grid \<Rightarrow> grid \<Rightarrow> grid list \<Rightarrow> bool" where
  "route a b p \<longleftrightarrow> legal_path p \<and> hd p = a \<and> last p = b"

definition solvable :: "grid \<Rightarrow> bool" where
  "solvable s \<longleftrightarrow> (\<exists>p. route s goal_state p)"

text \<open>The node the \<open>for\<close> loop builds for a neighbour on which the heuristic raises nothing.\<close>

definition child :: "node \<Rightarrow> grid \<Rightarrow> node" where
  "child current t = PuzzleNode t (Some current) (node_g current + 1) (hval t)"

text \<open>
  A node of a search from \<open>init\<close>: its parent chain, reversed, is a route from \<open>init\<close>
  to its state, \<open>g\<close> counts the moves of that route and \<open>h\<close> is the heuristic of the state.
\<close>

definition node_ok :: "grid \<Rightarrow> node \<Rightarrow> bool" where
  "node_ok init n \<longleftrightarrow>
     route init (node_state n) (rev (path_to n)) \<and> int (length (path_to n)) = node_g n + 1 \<and>
     valid_grid (node_state n) \<and> node_h n = hval (node_state n)"

text \<open>
  What holds at the head of \<open>while open_list\<close>. The last part: a state in the explored set
  was expanded at a depth \<open>e\<close> that no route undercuts, and each of its neighbours is
  explored or waits in the frontier at depth at most \<open>e + 1\<close>.
\<close>

definition search_inv :: "grid \<Rightarrow> node list \<Rightarrow> grid set \<Rightarrow> bool" where
  "search_inv init ol cl \<longleftrightarrow>
     valid_grid init \<and> is_heap ol \<and> (\<forall>n\<in>set ol. node_ok init n) \<and>
     (\<forall>s\<in>cl. valid_grid s \<and> s \<noteq> goal_state) \<and>
     (init \<in> cl \<or> (\<exists>n\<in>set ol. node_state n = init \<and> node_g n = 0)) \<and>
     (\<forall>s\<in>cl. \<exists>e. (\<forall>p. route init s p \<longrightarrow> e + 1 \<le> int (length p)) \<and>
        (\<forall>t\<in>set (nbs s). t \<in> cl \<or> (\<exists>m\<in>set ol. node_state m = t \<and> node_g m \<le> e + 1)))"

text \<open>
  What a returned value has to be: \<open>None\<close> only if no route to \<open>goal_state\<close> exists,
  else a route to \<open>goal_state\<close> that no other route undercuts.
\<close>

definition result_ok :: "grid \<Rightarrow> grid list option \<Rightarrow> bool" where
  "result_ok init r \<longleftrightarrow>
     (case r of
        None \<Rightarrow> \<not> solvable init
      | Some p \<Rightarrow> route init goal_state p \<and> (\<forall>q. route init goal_state q \<longrightarrow> length p \<le> length q))"

text \<open>
  The order in which the loop makes progress: the valid grids outside the explored set
  become fewer, or they stay and the frontier loses a node whose state is explored.
\<close>

definition progress :: "((node list \<times> grid set) \<times> (node list \<times> grid set)) set" where
  "progress =
     inv_image (less_than <*lex*> less_than)
       (\<lambda>(ol, cl). (card ({s. valid_grid s} - cl), length (filter (\<lambda>n. node_state n \<in> cl) ol)))"

section \<open>Passes of the loop\<close>

text \<open>
  The frontier and explored set with which \<open>solve_puzzle\<close> enters the loop, on a grid
  where the heuristic raises nothing, and the state at the head of the loop \<open>k\<close> passes
  later (a pass that returns, or an empty frontier, leaves the state as it is).
\<close>

definition start_state :: "grid \<Rightarrow> node list \<times> grid set" where
  "start_state init = ([PuzzleNode init None 0 (hval init)], {})"

fun passes :: "nat \<Rightarrow> node list \<times> grid set \<Rightarrow> node list \<times> grid set" where
  "passes 0 s = s"
| "passes (Suc k) s =
     (if fst s = [] then s
      else (case search_step (fst s) (snd s) of
              Finished r \<Rightarrow> s
            | Next ol' cl' \<Rightarrow> passes k (ol', cl')))"

text \<open>
  The frontier of the specification: the nodes in the order in which they were pushed, of
  which a pop takes the first one of least \<open>f\<close>. \<open>passes_ordered\<close> runs the loop as
  \<open>passes\<close> does and keeps that list beside the heap: the popped node leaves it, the nodes
  pushed in the pass are appended in the order of the \<open>for\<close> loop.
\<close>

fun stable_pop :: "node list \<Rightarrow> node option" where
  "stable_pop [] = None"
| "stable_pop (x # xs) = Some (fold (\<lambda>y m. if node_f y < node_f m then y else m) xs x)"

fun passes_ordered ::
  "nat \<Rightarrow> node list \<times> grid set \<times> node list \<Rightarrow> node list \<times> grid set \<times> node list" where
  "passes_ordered 0 s = s"
| "passes_ordered (Suc k) s =
     (if fst s = [] then s
      else (case search_step (fst s) (fst (snd s)) of
              Finished r \<Rightarrow> s
            | Next ol' cl' \<Rightarrow>
                passes_ordered k (ol', cl',
                  remove1 (fst (heappop (fst s))) (snd (snd s)) @
                  map (child (fst (heappop (fst s))))
                    (filter (\<lambda>t. t \<notin> cl') (nbs (node_state (fst (heappop (fst s)))))))))"

text \<open>The test \<open>if solution:\<close> of the caller: \<open>None\<close> and the empty list are false.\<close>

definition truthy :: "grid list option \<Rightarrow> bool" where
  "truthy solution \<longleftrightarrow> (case solution of None \<Rightarrow> False | Some p \<Rightarrow> p \<noteq> [])"

section \<open>The parity of a grid\<close>

text \<open>
  The tiles of a grid in reading order, the number of pairs of tiles that stand in the
  wrong order, and whether that number is odd. No move changes the last.
\<close>

fun inversions :: "int list \<Rightarrow> nat" where
  "inversions [] = 0"
| "inversions (x # xs) = length (filter (\<lambda>y. y < x) xs) + inversions xs"

definition tiles :: "grid \<Rightarrow> int list" where
  "tiles s = filter (\<lambda>v. v \<noteq> 0) (concat s)"

definition odd_grid :: "grid \<Rightarrow> bool" where
  "odd_grid s \<longleftrightarrow> odd (inversions (tiles s))"



section \<open>Grids written out\<close>

lemma positions_eq:
  "positions = [(0, 0), (0, Suc 0), (0, 2), (Suc 0, 0), (Suc 0, Suc 0), (Suc 0, 2),
                (2, 0), (2, Suc 0), (2, 2)]"
  by (simp add: positions_def upt_rec)

lemma length3_cases:
  assumes "length xs = 3"
  obtains a b c where "xs = [a, b, c]"
proof -
  from assms obtain a ys where 1: "xs = a # ys" and "length ys = 2"
    by (cases xs) auto
  then obtain b zs where 2: "ys = b # zs" and "length zs = 1"
    by (cases ys) auto
  then obtain c where "zs = [c]"
    by (cases zs) auto
  with 1 2 that show thesis by blast
qed

lemma three_by_three_cases:
  assumes "three_by_three s"
  obtains a b c d e f g h k where "s = [[a, b, c], [d, e, f], [g, h, k]]"
proof -
  from assms have "length s = 3" and rows: "\<forall>r\<in>set s. length r = 3"
    by (simp_all add: three_by_three_def)
  then obtain r1 r2 r3 where s: "s = [r1, r2, r3]"
    by (auto elim: length3_cases)
  with rows have "length r1 = 3" "length r2 = 3" "length r3 = 3" by simp_all
  then obtain a b c where r1: "r1 = [a, b, c]" by (auto elim: length3_cases)
  from \<open>length r2 = 3\<close> obtain d e f where r2: "r2 = [d, e, f]" by (auto elim: length3_cases)
  from \<open>length r3 = 3\<close> obtain g h k where r3: "r3 = [g, h, k]" by (auto elim: length3_cases)
  from s r1 r2 r3 that show thesis by blast
qed

lemma three_by_three_grid: "three_by_three [[a, b, c], [d, e, f], [g, h, k]]"
  by (simp add: three_by_three_def)

lemma nth3:
  "[x, y, z] ! 0 = x" "[x, y, z] ! Suc 0 = y" "[x, y, z] ! 2 = z"
  by (simp_all add: numeral_2_eq_2)

lemma update3:
  "[x, y, z][0 := w] = [w, y, z]" "[x, y, z][Suc 0 := w] = [x, w, z]"
  "[x, y, z][2 := w] = [x, y, w]"
  by (simp_all add: numeral_2_eq_2)

lemma cell_grid:
  "cell [[a, b, c], [d, e, f], [g, h, k]] 0 0 = Inr a"
  "cell [[a, b, c], [d, e, f], [g, h, k]] 0 (Suc 0) = Inr b"
  "cell [[a, b, c], [d, e, f], [g, h, k]] 0 2 = Inr c"
  "cell [[a, b, c], [d, e, f], [g, h, k]] (Suc 0) 0 = Inr d"
  "cell [[a, b, c], [d, e, f], [g, h, k]] (Suc 0) (Suc 0) = Inr e"
  "cell [[a, b, c], [d, e, f], [g, h, k]] (Suc 0) 2 = Inr f"
  "cell [[a, b, c], [d, e, f], [g, h, k]] 2 0 = Inr g"
  "cell [[a, b, c], [d, e, f], [g, h, k]] 2 (Suc 0) = Inr h"
  "cell [[a, b, c], [d, e, f], [g, h, k]] 2 2 = Inr k"
  by (simp_all add: cell_def numeral_2_eq_2)

subsection \<open>The heuristic on a written-out grid\<close>

lemma manhattan_step:
  "cell state i j = Inr v \<Longrightarrow>
   manhattan_loop state ((i, j) # rest) distance =
     manhattan_loop state rest (distance + tile_cost v i j)"
  by (simp add: tile_cost_def Let_def)

lemma manhattan_grid:
  "manhattan_distance [[a, b, c], [d, e, f], [g, h, k]] =
     Inr (tile_cost a 0 0 + tile_cost b 0 (Suc 0) + tile_cost c 0 2
        + tile_cost d (Suc 0) 0 + tile_cost e (Suc 0) (Suc 0) + tile_cost f (Suc 0) 2
        + tile_cost g 2 0 + tile_cost h 2 (Suc 0) + tile_cost k 2 2)"
  by (simp add: manhattan_distance_def positions_eq manhattan_step cell_grid
           del: manhattan_loop.simps(2))

lemma hval_grid:
  "hval [[a, b, c], [d, e, f], [g, h, k]] =
     tile_cost a 0 0 + tile_cost b 0 (Suc 0) + tile_cost c 0 2
        + tile_cost d (Suc 0) 0 + tile_cost e (Suc 0) (Suc 0) + tile_cost f (Suc 0) 2
        + tile_cost g 2 0 + tile_cost h 2 (Suc 0) + tile_cost k 2 2"
  by (simp add: hval_def manhattan_grid)

lemma manhattan_hval: "three_by_three s \<Longrightarrow> manhattan_distance s = Inr (hval s)"
  by (erule three_by_three_cases) (simp add: hval_def manhattan_grid)

lemma tile_cost_zero: "tile_cost 0 i j = 0"
  by (simp add: tile_cost_def)

lemma tile_cost_nonneg: "0 \<le> tile_cost v i j"
  by (simp add: tile_cost_def)

lemma abs_step: "\<bar>\<bar>x - i\<bar> - \<bar>x - (i + 1)\<bar>\<bar> \<le> (1::int)"
  by linarith

lemma tile_cost_row: "\<bar>tile_cost v i j - tile_cost v (Suc i) j\<bar> \<le> 1"
proof (cases "v = 0")
  case True
  then show ?thesis by (simp add: tile_cost_def)
next
  case False
  have "\<bar>\<bar>(v - 1) div 3 - int i\<bar> - \<bar>(v - 1) div 3 - (int i + 1)\<bar>\<bar> \<le> 1"
    by (rule abs_step)
  with False show ?thesis by (simp add: tile_cost_def algebra_simps)
qed

lemma tile_cost_col: "\<bar>tile_cost v i j - tile_cost v i (Suc j)\<bar> \<le> 1"
proof (cases "v = 0")
  case True
  then show ?thesis by (simp add: tile_cost_def)
next
  case False
  have "\<bar>\<bar>(v - 1) mod 3 - int j\<bar> - \<bar>(v - 1) mod 3 - (int j + 1)\<bar>\<bar> \<le> 1"
    by (rule abs_step)
  with False show ?thesis by (simp add: tile_cost_def algebra_simps)
qed

lemma tile_cost_row2: "\<bar>tile_cost v (Suc 0) j - tile_cost v 2 j\<bar> \<le> 1"
  using tile_cost_row[of v "Suc 0" j] by (simp add: numeral_2_eq_2)

lemma tile_cost_col2: "\<bar>tile_cost v i (Suc 0) - tile_cost v i 2\<bar> \<le> 1"
  using tile_cost_col[of v i "Suc 0"] by (simp add: numeral_2_eq_2)

subsection \<open>Exchanging two adjacent cells, one of them the blank\<close>

lemma moved_swap:
  assumes "x = 0 \<or> y = 0"
  shows
 "moved [[x, y, c], [d, e, f], [g, h, k]]
           [[y, x, c], [d, e, f], [g, h, k]]"
    and "moved [[a, x, y], [d, e, f], [g, h, k]]
           [[a, y, x], [d, e, f], [g, h, k]]"
    and "moved [[a, b, c], [x, y, f], [g, h, k]]
           [[a, b, c], [y, x, f], [g, h, k]]"
    and "moved [[a, b, c], [d, x, y], [g, h, k]]
           [[a, b, c], [d, y, x], [g, h, k]]"
    and "moved [[a, b, c], [d, e, f], [x, y, k]]
           [[a, b, c], [d, e, f], [y, x, k]]"
    and "moved [[a, b, c], [d, e, f], [g, x, y]]
           [[a, b, c], [d, e, f], [g, y, x]]"
    and "moved [[x, b, c], [y, e, f], [g, h, k]]
           [[y, b, c], [x, e, f], [g, h, k]]"
    and "moved [[a, b, c], [x, e, f], [y, h, k]]
           [[a, b, c], [y, e, f], [x, h, k]]"
    and "moved [[a, x, c], [d, y, f], [g, h, k]]
           [[a, y, c], [d, x, f], [g, h, k]]"
    and "moved [[a, b, c], [d, x, f], [g, y, k]]
           [[a, b, c], [d, y, f], [g, x, k]]"
    and "moved [[a, b, x], [d, e, y], [g, h, k]]
           [[a, b, y], [d, e, x], [g, h, k]]"
    and "moved [[a, b, c], [d, e, x], [g, h, y]]
           [[a, b, c], [d, e, y], [g, h, x]]"
  using assms tile_cost_col[of x 0 0] tile_cost_col[of y 0 0]
    apply (auto simp: moved_def hval_grid three_by_three_grid tile_cost_zero)[1]
  using assms tile_cost_col2[of x 0] tile_cost_col2[of y 0]
    apply (auto simp: moved_def hval_grid three_by_three_grid tile_cost_zero)[1]
  using assms tile_cost_col[of x "Suc 0" 0] tile_cost_col[of y "Suc 0" 0]
    apply (auto simp: moved_def hval_grid three_by_three_grid tile_cost_zero)[1]
  using assms tile_cost_col2[of x "Suc 0"] tile_cost_col2[of y "Suc 0"]
    apply (auto simp: moved_def hval_grid three_by_three_grid tile_cost_zero)[1]
  using assms tile_cost_col[of x 2 0] tile_cost_col[of y 2 0]
    apply (auto simp: moved_def hval_grid three_by_three_grid tile_cost_zero)[1]
  using assms tile_cost_col2[of x 2] tile_cost_col2[of y 2]
    apply (auto simp: moved_def hval_grid three_by_three_grid tile_cost_zero)[1]
  using assms tile_cost_row[of x 0 0] tile_cost_row[of y 0 0]
    apply (auto simp: moved_def hval_grid three_by_three_grid tile_cost_zero)[1]
  using assms tile_cost_row2[of x 0] tile_cost_row2[of y 0]
    apply (auto simp: moved_def hval_grid three_by_three_grid tile_cost_zero)[1]
  using assms tile_cost_row[of x 0 "Suc 0"] tile_cost_row[of y 0 "Suc 0"]
    apply (auto simp: moved_def hval_grid three_by_three_grid tile_cost_zero)[1]
  using assms tile_cost_row2[of x "Suc 0"] tile_cost_row2[of y "Suc 0"]
    apply (auto simp: moved_def hval_grid three_by_three_grid tile_cost_zero)[1]
  using assms tile_cost_row[of x 0 2] tile_cost_row[of y 0 2]
    apply (auto simp: moved_def hval_grid three_by_three_grid tile_cost_zero)[1]
  using assms tile_cost_row2[of x 2] tile_cost_row2[of y 2]
    apply (auto simp: moved_def hval_grid three_by_three_grid tile_cost_zero)[1]
  done

lemma blank_moveI:
  "three_by_three t \<Longrightarrow> p \<in> set positions \<Longrightarrow> q \<in> set positions \<Longrightarrow> adjacent p q \<Longrightarrow>
   at s p = 0 \<Longrightarrow> at t p = at s q \<Longrightarrow> at t q = 0 \<Longrightarrow>
   (\<forall>r\<in>set positions. r \<noteq> p \<and> r \<noteq> q \<longrightarrow> at t r = at s r) \<Longrightarrow> blank_move s t"
  unfolding blank_move_def by blast

lemma blank_first:
  shows "blank_move [[0, y, c], [d, e, f], [g, h, k]]
                [[y, 0, c], [d, e, f], [g, h, k]]"
    and "blank_move [[a, 0, y], [d, e, f], [g, h, k]]
                [[a, y, 0], [d, e, f], [g, h, k]]"
    and "blank_move [[a, b, c], [0, y, f], [g, h, k]]
                [[a, b, c], [y, 0, f], [g, h, k]]"
    and "blank_move [[a, b, c], [d, 0, y], [g, h, k]]
                [[a, b, c], [d, y, 0], [g, h, k]]"
    and "blank_move [[a, b, c], [d, e, f], [0, y, k]]
                [[a, b, c], [d, e, f], [y, 0, k]]"
    and "blank_move [[a, b, c], [d, e, f], [g, 0, y]]
                [[a, b, c], [d, e, f], [g, y, 0]]"
    and "blank_move [[0, b, c], [y, e, f], [g, h, k]]
                [[y, b, c], [0, e, f], [g, h, k]]"
    and "blank_move [[a, b, c], [0, e, f], [y, h, k]]
                [[a, b, c], [y, e, f], [0, h, k]]"
    and "blank_move [[a, 0, c], [d, y, f], [g, h, k]]
                [[a, y, c], [d, 0, f], [g, h, k]]"
    and "blank_move [[a, b, c], [d, 0, f], [g, y, k]]
                [[a, b, c], [d, y, f], [g, 0, k]]"
    and "blank_move [[a, b, 0], [d, e, y], [g, h, k]]
                [[a, b, y], [d, e, 0], [g, h, k]]"
    and "blank_move [[a, b, c], [d, e, 0], [g, h, y]]
                [[a, b, c], [d, e, y], [g, h, 0]]"
  apply (rule blank_moveI[where p = "(0, 0)" and q = "(0, Suc 0)"];
         simp add: positions_eq at_def adjacent_def three_by_three_grid nth3)
  apply (rule blank_moveI[where p = "(0, Suc 0)" and q = "(0, 2)"];
         simp add: positions_eq at_def adjacent_def three_by_three_grid nth3)
  apply (rule blank_moveI[where p = "(Suc 0, 0)" and q = "(Suc 0, Suc 0)"];
         simp add: positions_eq at_def adjacent_def three_by_three_grid nth3)
  apply (rule blank_moveI[where p = "(Suc 0, Suc 0)" and q = "(Suc 0, 2)"];
         simp add: positions_eq at_def adjacent_def three_by_three_grid nth3)
  apply (rule blank_moveI[where p = "(2, 0)" and q = "(2, Suc 0)"];
         simp add: positions_eq at_def adjacent_def three_by_three_grid nth3)
  apply (rule blank_moveI[where p = "(2, Suc 0)" and q = "(2, 2)"];
         simp add: positions_eq at_def adjacent_def three_by_three_grid nth3)
  apply (rule blank_moveI[where p = "(0, 0)" and q = "(Suc 0, 0)"];
         simp add: positions_eq at_def adjacent_def three_by_three_grid nth3)
  apply (rule blank_moveI[where p = "(Suc 0, 0)" and q = "(2, 0)"];
         simp add: positions_eq at_def adjacent_def three_by_three_grid nth3)
  apply (rule blank_moveI[where p = "(0, Suc 0)" and q = "(Suc 0, Suc 0)"];
         simp add: positions_eq at_def adjacent_def three_by_three_grid nth3)
  apply (rule blank_moveI[where p = "(Suc 0, Suc 0)" and q = "(2, Suc 0)"];
         simp add: positions_eq at_def adjacent_def three_by_three_grid nth3)
  apply (rule blank_moveI[where p = "(0, 2)" and q = "(Suc 0, 2)"];
         simp add: positions_eq at_def adjacent_def three_by_three_grid nth3)
  apply (rule blank_moveI[where p = "(Suc 0, 2)" and q = "(2, 2)"];
         simp add: positions_eq at_def adjacent_def three_by_three_grid nth3)
  done

lemma blank_second:
  shows "blank_move [[x, 0, c], [d, e, f], [g, h, k]]
                [[0, x, c], [d, e, f], [g, h, k]]"
    and "blank_move [[a, x, 0], [d, e, f], [g, h, k]]
                [[a, 0, x], [d, e, f], [g, h, k]]"
    and "blank_move [[a, b, c], [x, 0, f], [g, h, k]]
                [[a, b, c], [0, x, f], [g, h, k]]"
    and "blank_move [[a, b, c], [d, x, 0], [g, h, k]]
                [[a, b, c], [d, 0, x], [g, h, k]]"
    and "blank_move [[a, b, c], [d, e, f], [x, 0, k]]
                [[a, b, c], [d, e, f], [0, x, k]]"
    and "blank_move [[a, b, c], [d, e, f], [g, x, 0]]
                [[a, b, c], [d, e, f], [g, 0, x]]"
    and "blank_move [[x, b, c], [0, e, f], [g, h, k]]
                [[0, b, c], [x, e, f], [g, h, k]]"
    and "blank_move [[a, b, c], [x, e, f], [0, h, k]]
                [[a, b, c], [0, e, f], [x, h, k]]"
    and "blank_move [[a, x, c], [d, 0, f], [g, h, k]]
                [[a, 0, c], [d, x, f], [g, h, k]]"
    and "blank_move [[a, b, c], [d, x, f], [g, 0, k]]
                [[a, b, c], [d, 0, f], [g, x, k]]"
    and "blank_move [[a, b, x], [d, e, 0], [g, h, k]]
                [[a, b, 0], [d, e, x], [g, h, k]]"
    and "blank_move [[a, b, c], [d, e, x], [g, h, 0]]
                [[a, b, c], [d, e, 0], [g, h, x]]"
  apply (rule blank_moveI[where p = "(0, Suc 0)" and q = "(0, 0)"];
         simp add: positions_eq at_def adjacent_def three_by_three_grid nth3)
  apply (rule blank_moveI[where p = "(0, 2)" and q = "(0, Suc 0)"];
         simp add: positions_eq at_def adjacent_def three_by_three_grid nth3)
  apply (rule blank_moveI[where p = "(Suc 0, Suc 0)" and q = "(Suc 0, 0)"];
         simp add: positions_eq at_def adjacent_def three_by_three_grid nth3)
  apply (rule blank_moveI[where p = "(Suc 0, 2)" and q = "(Suc 0, Suc 0)"];
         simp add: positions_eq at_def adjacent_def three_by_three_grid nth3)
  apply (rule blank_moveI[where p = "(2, Suc 0)" and q = "(2, 0)"];
         simp add: positions_eq at_def adjacent_def three_by_three_grid nth3)
  apply (rule blank_moveI[where p = "(2, 2)" and q = "(2, Suc 0)"];
         simp add: positions_eq at_def adjacent_def three_by_three_grid nth3)
  apply (rule blank_moveI[where p = "(Suc 0, 0)" and q = "(0, 0)"];
         simp add: positions_eq at_def adjacent_def three_by_three_grid nth3)
  apply (rule blank_moveI[where p = "(2, 0)" and q = "(Suc 0, 0)"];
         simp add: positions_eq at_def adjacent_def three_by_three_grid nth3)
  apply (rule blank_moveI[where p = "(Suc 0, Suc 0)" and q = "(0, Suc 0)"];
         simp add: positions_eq at_def adjacent_def three_by_three_grid nth3)
  apply (rule blank_moveI[where p = "(2, Suc 0)" and q = "(Suc 0, Suc 0)"];
         simp add: positions_eq at_def adjacent_def three_by_three_grid nth3)
  apply (rule blank_moveI[where p = "(Suc 0, 2)" and q = "(0, 2)"];
         simp add: positions_eq at_def adjacent_def three_by_three_grid nth3)
  apply (rule blank_moveI[where p = "(2, 2)" and q = "(Suc 0, 2)"];
         simp add: positions_eq at_def adjacent_def three_by_three_grid nth3)
  done

subsection \<open>Blank position and neighbours of a written-out grid\<close>

lemma blank_grid:
  "get_blank_position [[a, b, c], [d, e, f], [g, h, k]] =
     Inr (if a = 0 then Some (0, 0) else if b = 0 then Some (0, Suc 0)
          else if c = 0 then Some (0, 2) else if d = 0 then Some (Suc 0, 0)
          else if e = 0 then Some (Suc 0, Suc 0) else if f = 0 then Some (Suc 0, 2)
          else if g = 0 then Some (2, 0) else if h = 0 then Some (2, Suc 0)
          else if k = 0 then Some (2, 2) else None)"
  by (simp add: get_blank_position_def positions_eq cell_grid)

lemma neighbors_at:
  "neighbors_loop [[a, b, c], [d, e, f], [g, h, k]] 0 0 moves [] =
     Inr [[[d, b, c], [a, e, f], [g, h, k]], [[b, a, c], [d, e, f], [g, h, k]]]"
  "neighbors_loop [[a, b, c], [d, e, f], [g, h, k]] 0 (Suc 0) moves [] =
     Inr [[[a, e, c], [d, b, f], [g, h, k]], [[a, c, b], [d, e, f], [g, h, k]],
          [[b, a, c], [d, e, f], [g, h, k]]]"
  "neighbors_loop [[a, b, c], [d, e, f], [g, h, k]] 0 2 moves [] =
     Inr [[[a, b, f], [d, e, c], [g, h, k]], [[a, c, b], [d, e, f], [g, h, k]]]"
  "neighbors_loop [[a, b, c], [d, e, f], [g, h, k]] (Suc 0) 0 moves [] =
     Inr [[[a, b, c], [g, e, f], [d, h, k]], [[d, b, c], [a, e, f], [g, h, k]],
          [[a, b, c], [e, d, f], [g, h, k]]]"
  "neighbors_loop [[a, b, c], [d, e, f], [g, h, k]] (Suc 0) (Suc 0) moves [] =
     Inr [[[a, b, c], [d, h, f], [g, e, k]], [[a, e, c], [d, b, f], [g, h, k]],
          [[a, b, c], [d, f, e], [g, h, k]], [[a, b, c], [e, d, f], [g, h, k]]]"
  "neighbors_loop [[a, b, c], [d, e, f], [g, h, k]] (Suc 0) 2 moves [] =
     Inr [[[a, b, c], [d, e, k], [g, h, f]], [[a, b, f], [d, e, c], [g, h, k]],
          [[a, b, c], [d, f, e], [g, h, k]]]"
  "neighbors_loop [[a, b, c], [d, e, f], [g, h, k]] 2 0 moves [] =
     Inr [[[a, b, c], [g, e, f], [d, h, k]], [[a, b, c], [d, e, f], [h, g, k]]]"
  "neighbors_loop [[a, b, c], [d, e, f], [g, h, k]] 2 (Suc 0) moves [] =
     Inr [[[a, b, c], [d, h, f], [g, e, k]], [[a, b, c], [d, e, f], [g, k, h]],
          [[a, b, c], [d, e, f], [h, g, k]]]"
  "neighbors_loop [[a, b, c], [d, e, f], [g, h, k]] 2 2 moves [] =
     Inr [[[a, b, c], [d, e, k], [g, h, f]], [[a, b, c], [d, e, f], [g, k, h]]]"
  by (simp_all add: moves_def swap_cells_def Let_def cell_grid nth3 update3)

text \<open>
  The neighbours of a 3x3 grid with a zero: no error, the count the blank's cell fixes,
  and each one a legal move away.
\<close>

lemma get_neighbors_grid:
  assumes "0 \<in> set [a, b, c, d, e, f, g, h, k]"
  shows "\<exists>p ns. get_blank_position [[a, b, c], [d, e, f], [g, h, k]] = Inr (Some p)
           \<and> p \<in> set positions \<and> at [[a, b, c], [d, e, f], [g, h, k]] p = 0
           \<and> get_neighbors [[a, b, c], [d, e, f], [g, h, k]] = Inr ns
           \<and> (corner p \<longrightarrow> length ns = 2) \<and> (edge p \<longrightarrow> length ns = 3)
           \<and> (center p \<longrightarrow> length ns = 4)
           \<and> (\<forall>n\<in>set ns. moved [[a, b, c], [d, e, f], [g, h, k]] n
                          \<and> blank_move [[a, b, c], [d, e, f], [g, h, k]] n)"
proof -
  consider "a = 0"
    | "a \<noteq> 0" "b = 0"
    | "a \<noteq> 0" "b \<noteq> 0" "c = 0"
    | "a \<noteq> 0" "b \<noteq> 0" "c \<noteq> 0" "d = 0"
    | "a \<noteq> 0" "b \<noteq> 0" "c \<noteq> 0" "d \<noteq> 0" "e = 0"
    | "a \<noteq> 0" "b \<noteq> 0" "c \<noteq> 0" "d \<noteq> 0" "e \<noteq> 0" "f = 0"
    | "a \<noteq> 0" "b \<noteq> 0" "c \<noteq> 0" "d \<noteq> 0" "e \<noteq> 0" "f \<noteq> 0" "g = 0"
    | "a \<noteq> 0" "b \<noteq> 0" "c \<noteq> 0" "d \<noteq> 0" "e \<noteq> 0" "f \<noteq> 0" "g \<noteq> 0" "h = 0"
    | "a \<noteq> 0" "b \<noteq> 0" "c \<noteq> 0" "d \<noteq> 0" "e \<noteq> 0" "f \<noteq> 0" "g \<noteq> 0" "h \<noteq> 0" "k = 0"
    using assms by auto
  then show ?thesis
    by cases
      (simp_all add: get_neighbors_def blank_grid neighbors_at positions_eq at_def nth3
         corner_def edge_def center_def moved_swap blank_first blank_second)
qed

subsection \<open>Neighbours of a valid grid\<close>

lemma valid_three_by_three: "valid_grid s \<Longrightarrow> three_by_three s"
  by (simp add: valid_grid_def)

lemma valid_has_blank: "valid_grid s \<Longrightarrow> 0 \<in> set (concat s)"
proof -
  assume "valid_grid s"
  then have "set_mset (mset (concat s)) = set_mset (mset [0, 1, 2, 3, 4, 5, 6, 7, 8])"
    by (simp only: valid_grid_def)
  then show ?thesis by simp
qed

lemma moved_valid: "valid_grid s \<Longrightarrow> moved s n \<Longrightarrow> valid_grid n"
  by (simp add: valid_grid_def moved_def)

lemma neighbors_props:
  assumes "three_by_three s" and "0 \<in> set (concat s)"
  shows "\<exists>p ns. get_blank_position s = Inr (Some p) \<and> p \<in> set positions \<and> at s p = 0
           \<and> get_neighbors s = Inr ns
           \<and> (corner p \<longrightarrow> length ns = 2) \<and> (edge p \<longrightarrow> length ns = 3)
           \<and> (center p \<longrightarrow> length ns = 4)
           \<and> (\<forall>n\<in>set ns. moved s n \<and> blank_move s n)"
proof -
  from assms(1) obtain a b c d e f g h k where s: "s = [[a, b, c], [d, e, f], [g, h, k]]"
    by (rule three_by_three_cases)
  with assms(2) have "0 \<in> set [a, b, c, d, e, f, g, h, k]" by simp
  from get_neighbors_grid[OF this] s show ?thesis by simp
qed

lemma position_kind: "p \<in> set positions \<Longrightarrow> corner p \<or> edge p \<or> center p"
  by (auto simp: positions_eq corner_def edge_def center_def)

subsection \<open>The heuristic measures the distance to the solved grid\<close>

lemma goal_position_solved:
  "goal_position solved_grid 1 = (0, 0)" "goal_position solved_grid 2 = (0, Suc 0)"
  "goal_position solved_grid 3 = (0, 2)" "goal_position solved_grid 4 = (Suc 0, 0)"
  "goal_position solved_grid 5 = (Suc 0, Suc 0)" "goal_position solved_grid 6 = (Suc 0, 2)"
  "goal_position solved_grid 7 = (2, 0)" "goal_position solved_grid 8 = (2, Suc 0)"
  by (simp_all add: goal_position_def solved_grid_def positions_eq at_def nth3)

lemma tile_cost_solved:
  assumes "v \<in> set [0, 1, 2, 3, 4, 5, 6, 7, 8]"
  shows "tile_cost v i j =
           (if v \<noteq> 0 then l1_distance (i, j) (goal_position solved_grid v) else 0)"
proof -
  from assms consider "v = 0" | "v = 1" | "v = 2" | "v = 3" | "v = 4" | "v = 5" | "v = 6"
    | "v = 7" | "v = 8"
    by auto
  then show ?thesis
    by cases (simp_all add: tile_cost_def l1_distance_def goal_position_solved)
qed

lemma distance_to_grid:
  "distance_to goal [[a, b, c], [d, e, f], [g, h, k]] =
     (if a \<noteq> 0 then l1_distance (0, 0) (goal_position goal a) else 0)
   + (if b \<noteq> 0 then l1_distance (0, Suc 0) (goal_position goal b) else 0)
   + (if c \<noteq> 0 then l1_distance (0, 2) (goal_position goal c) else 0)
   + (if d \<noteq> 0 then l1_distance (Suc 0, 0) (goal_position goal d) else 0)
   + (if e \<noteq> 0 then l1_distance (Suc 0, Suc 0) (goal_position goal e) else 0)
   + (if f \<noteq> 0 then l1_distance (Suc 0, 2) (goal_position goal f) else 0)
   + (if g \<noteq> 0 then l1_distance (2, 0) (goal_position goal g) else 0)
   + (if h \<noteq> 0 then l1_distance (2, Suc 0) (goal_position goal h) else 0)
   + (if k \<noteq> 0 then l1_distance (2, 2) (goal_position goal k) else 0)"
  unfolding distance_to_def positions_eq by (simp add: at_def nth3 del: if_split cong: if_cong)

lemma manhattan_is_distance_to_solved:
  assumes "valid_grid s"
  shows "manhattan_distance s = Inr (distance_to solved_grid s)"
proof -
  from assms obtain a b c d e f g h k where s: "s = [[a, b, c], [d, e, f], [g, h, k]]"
    by (auto simp: valid_grid_def elim: three_by_three_cases)
  from assms have "set_mset (mset (concat s)) = set_mset (mset [0, 1, 2, 3, 4, 5, 6, 7, 8])"
    by (simp only: valid_grid_def)
  then have eq: "set (concat s) = set [0, 1, 2, 3, 4, 5, 6, 7, 8]"
    by (simp only: set_mset_mset)
  have *: "x \<in> set [0, 1, 2, 3, 4, 5, 6, 7, 8]" if "x \<in> set [a, b, c, d, e, f, g, h, k]" for x
  proof -
    from that s have "x \<in> set (concat s)" by simp
    then show ?thesis by (simp only: eq)
  qed
  have "tile_cost x i j =
          (if x \<noteq> 0 then l1_distance (i, j) (goal_position solved_grid x) else 0)"
    if "x \<in> set [a, b, c, d, e, f, g, h, k]" for x i j
    using *[OF that] by (rule tile_cost_solved)
  then show ?thesis
    unfolding s manhattan_grid distance_to_grid by simp
qed

subsection \<open>Every legal move of a valid grid is among its neighbours\<close>

lemma valid_distinct: "valid_grid s \<Longrightarrow> distinct (concat s)"
proof -
  assume "valid_grid s"
  then have "mset (concat s) = mset [0, 1, 2, 3, 4, 5, 6, 7, 8]"
    by (simp add: valid_grid_def)
  from mset_eq_imp_distinct_iff[OF this] show ?thesis by simp
qed

lemma adj_enum:
  assumes "p \<in> set positions" "q \<in> set positions" "adjacent p q"
  shows "(p, q) \<in> set [((0, 0), (0, Suc 0)), ((0, 0), (Suc 0, 0)),
      ((0, Suc 0), (0, 0)), ((0, Suc 0), (0, 2)), ((0, Suc 0), (Suc 0, Suc 0)),
      ((0, 2), (0, Suc 0)), ((0, 2), (Suc 0, 2)),
      ((Suc 0, 0), (0, 0)), ((Suc 0, 0), (Suc 0, Suc 0)), ((Suc 0, 0), (2, 0)),
      ((Suc 0, Suc 0), (0, Suc 0)), ((Suc 0, Suc 0), (Suc 0, 0)), ((Suc 0, Suc 0), (Suc 0, 2)),
      ((Suc 0, Suc 0), (2, Suc 0)),
      ((Suc 0, 2), (0, 2)), ((Suc 0, 2), (Suc 0, Suc 0)), ((Suc 0, 2), (2, 2)),
      ((2, 0), (Suc 0, 0)), ((2, 0), (2, Suc 0)),
      ((2, Suc 0), (2, 0)), ((2, Suc 0), (Suc 0, Suc 0)), ((2, Suc 0), (2, 2)),
      ((2, 2), (2, Suc 0)), ((2, 2), (Suc 0, 2))]"
proof -
  from assms(1) have "p = (0, 0) \<or> p = (0, Suc 0) \<or> p = (0, 2) \<or> p = (Suc 0, 0)
    \<or> p = (Suc 0, Suc 0) \<or> p = (Suc 0, 2) \<or> p = (2, 0) \<or> p = (2, Suc 0) \<or> p = (2, 2)"
    by (simp add: positions_eq)
  moreover from assms(2) have "q = (0, 0) \<or> q = (0, Suc 0) \<or> q = (0, 2) \<or> q = (Suc 0, 0)
    \<or> q = (Suc 0, Suc 0) \<or> q = (Suc 0, 2) \<or> q = (2, 0) \<or> q = (2, Suc 0) \<or> q = (2, 2)"
    by (simp add: positions_eq)
  ultimately show ?thesis
    using assms(3) by (elim disjE; simp add: adjacent_def)
qed


lemma blank_move_grid:
  assumes "blank_move [[a, b, c], [d, e, f], [g, h, k]] t"
    and "distinct [a, b, c, d, e, f, g, h, k]"
  shows "\<exists>ns. get_neighbors [[a, b, c], [d, e, f], [g, h, k]] = Inr ns \<and> t \<in> set ns"
proof -
  from assms(1) have "three_by_three t" by (simp add: blank_move_def)
  then obtain a' b' c' d' e' f' g' h' k'
    where t: "t = [[a', b', c'], [d', e', f'], [g', h', k']]"
    by (rule three_by_three_cases)
  from assms(1) obtain p q where pq: "p \<in> set positions" "q \<in> set positions" "adjacent p q"
    "at [[a, b, c], [d, e, f], [g, h, k]] p = 0" "at t p = at [[a, b, c], [d, e, f], [g, h, k]] q"
    "at t q = 0"
    "\<forall>r\<in>set positions. r \<noteq> p \<and> r \<noteq> q \<longrightarrow> at t r = at [[a, b, c], [d, e, f], [g, h, k]] r"
    unfolding blank_move_def by blast
  from adj_enum[OF pq(1-3)]
  have "(p = (0, 0) \<and> q = (0, Suc 0)) \<or> (p = (0, 0) \<and> q = (Suc 0, 0))
      \<or> (p = (0, Suc 0) \<and> q = (0, 0)) \<or> (p = (0, Suc 0) \<and> q = (0, 2))
      \<or> (p = (0, Suc 0) \<and> q = (Suc 0, Suc 0))
      \<or> (p = (0, 2) \<and> q = (0, Suc 0)) \<or> (p = (0, 2) \<and> q = (Suc 0, 2))
      \<or> (p = (Suc 0, 0) \<and> q = (0, 0)) \<or> (p = (Suc 0, 0) \<and> q = (Suc 0, Suc 0))
      \<or> (p = (Suc 0, 0) \<and> q = (2, 0))
      \<or> (p = (Suc 0, Suc 0) \<and> q = (0, Suc 0)) \<or> (p = (Suc 0, Suc 0) \<and> q = (Suc 0, 0))
      \<or> (p = (Suc 0, Suc 0) \<and> q = (Suc 0, 2)) \<or> (p = (Suc 0, Suc 0) \<and> q = (2, Suc 0))
      \<or> (p = (Suc 0, 2) \<and> q = (0, 2)) \<or> (p = (Suc 0, 2) \<and> q = (Suc 0, Suc 0))
      \<or> (p = (Suc 0, 2) \<and> q = (2, 2))
      \<or> (p = (2, 0) \<and> q = (Suc 0, 0)) \<or> (p = (2, 0) \<and> q = (2, Suc 0))
      \<or> (p = (2, Suc 0) \<and> q = (2, 0)) \<or> (p = (2, Suc 0) \<and> q = (Suc 0, Suc 0))
      \<or> (p = (2, Suc 0) \<and> q = (2, 2))
      \<or> (p = (2, 2) \<and> q = (2, Suc 0)) \<or> (p = (2, 2) \<and> q = (Suc 0, 2))"
    by simp
  then show ?thesis
    using pq(4-) assms(2) unfolding t
    by (elim disjE conjE;
        simp add: positions_eq at_def nth3 get_neighbors_def blank_grid neighbors_at)
qed

lemma blank_move_neighbors:
  assumes "valid_grid s" and "blank_move s t"
  shows "\<exists>ns. get_neighbors s = Inr ns \<and> t \<in> set ns"
proof -
  from assms(1) obtain a b c d e f g h k where s: "s = [[a, b, c], [d, e, f], [g, h, k]]"
    by (auto simp: valid_grid_def elim: three_by_three_cases)
  from valid_distinct[OF assms(1)] have "distinct [a, b, c, d, e, f, g, h, k]"
    unfolding s by simp
  with assms(2) show ?thesis
    unfolding s by (rule blank_move_grid)
qed

text \<open>The neighbours of a state when there is no error, else none.\<close>

lemma nbs_valid:
  assumes "valid_grid s"
  shows "get_neighbors s = Inr (nbs s)"
    and "t \<in> set (nbs s) \<longleftrightarrow> blank_move s t"
    and "t \<in> set (nbs s) \<Longrightarrow> valid_grid t \<and> \<bar>hval t - hval s\<bar> \<le> 1"
proof -
  from neighbors_props[OF valid_three_by_three[OF assms] valid_has_blank[OF assms]]
  obtain ns where ns: "get_neighbors s = Inr ns" "\<forall>n\<in>set ns. moved s n \<and> blank_move s n"
    by blast
  then show 1: "get_neighbors s = Inr (nbs s)"
    by (simp add: nbs_def)
  with ns blank_move_neighbors[OF assms, of t] show "t \<in> set (nbs s) \<longleftrightarrow> blank_move s t"
    by auto
  assume "t \<in> set (nbs s)"
  with 1 ns have "moved s t" by simp
  with assms show "valid_grid t \<and> \<bar>hval t - hval s\<bar> \<le> 1"
    by (simp add: moved_valid) (simp add: moved_def)
qed

subsection \<open>There are finitely many valid grids\<close>

lemma finite_valid: "finite {s. valid_grid s}"
proof -
  let ?R = "{r. set r \<subseteq> {0..8::int} \<and> length r = 3}"
  have "finite ?R" by (rule finite_lists_length_eq) simp
  then have "finite {s. set s \<subseteq> ?R \<and> length s = 3}" by (rule finite_lists_length_eq)
  moreover have "{s. valid_grid s} \<subseteq> {s. set s \<subseteq> ?R \<and> length s = 3}"
  proof
    fix s assume "s \<in> {s. valid_grid s}"
    then have v: "valid_grid s" by simp
    then have "set_mset (mset (concat s)) = set_mset (mset [0, 1, 2, 3, 4, 5, 6, 7, 8])"
      by (simp only: valid_grid_def)
    then have "set (concat s) = set [0, 1, 2, 3, 4, 5, 6, 7, 8]"
      by (simp only: set_mset_mset)
    then have "set (concat s) \<subseteq> {0..8}" by simp
    then have "\<forall>r\<in>set s. set r \<subseteq> {0..8}" by auto
    with v show "s \<in> {s. set s \<subseteq> ?R \<and> length s = 3}"
      by (auto simp: valid_grid_def three_by_three_def)
  qed
  ultimately show ?thesis by (rule rev_finite_subset)
qed

subsection \<open>A legal move changes a valid grid\<close>

lemma distinct_cells:
  assumes "distinct [a, b, c, d, e, f, g, h, k]" and "p \<in> set positions" and "q \<in> set positions"
    and "p \<noteq> q"
  shows "at [[a, b, c], [d, e, f], [g, h, k]] p \<noteq> at [[a, b, c], [d, e, f], [g, h, k]] q"
proof -
  let ?xs = "[a, b, c, d, e, f, g, h, k]"
  have flat: "at [[a, b, c], [d, e, f], [g, h, k]] r = ?xs ! (3 * fst r + snd r)
      \<and> fst r < 3 \<and> snd r < 3"
    if "r \<in> set positions" for r
    using that by (auto simp: positions_eq at_def nth3)
  from flat[OF assms(2)] flat[OF assms(3)]
  have b: "fst p < 3" "snd p < 3" "fst q < 3" "snd q < 3" by simp_all
  from assms(4) have "fst p \<noteq> fst q \<or> snd p \<noteq> snd q" by (simp add: prod_eq_iff)
  with b have "3 * fst p + snd p \<noteq> 3 * fst q + snd q" by arith
  moreover from b have "3 * fst p + snd p < length ?xs" "3 * fst q + snd q < length ?xs"
    by simp_all
  ultimately
  have "?xs ! (3 * fst p + snd p) \<noteq> ?xs ! (3 * fst q + snd q)"
    using nth_eq_iff_index_eq[OF assms(1), of "3 * fst p + snd p" "3 * fst q + snd q"] by blast
  with flat[OF assms(2)] flat[OF assms(3)] show ?thesis by simp
qed

lemma blank_move_differs:
  assumes "valid_grid s" and "blank_move s t"
  shows "s \<noteq> t"
proof
  assume eq: "s = t"
  from assms(1) obtain a b c d e f g h k where s: "s = [[a, b, c], [d, e, f], [g, h, k]]"
    by (auto simp: valid_grid_def elim: three_by_three_cases)
  from valid_distinct[OF assms(1)] have d: "distinct [a, b, c, d, e, f, g, h, k]"
    unfolding s by simp
  from assms(2) obtain p q where pq: "p \<in> set positions" "q \<in> set positions" "adjacent p q"
    "at s p = 0" "at t q = 0"
    unfolding blank_move_def by blast
  from pq(3) have "p \<noteq> q" by (auto simp: adjacent_def)
  from distinct_cells[OF d pq(1,2) this] pq(4,5) eq s show False by simp
qed

section \<open>The frontier keeps the heap order\<close>

lemma node_lt_f: "node_lt a b \<longleftrightarrow> node_f a < node_f b"
  by (simp add: node_lt_def node_f_def)

lemma parent_less: "0 < x \<Longrightarrow> (x - 1) div 2 < (x::nat)"
  by arith

lemma is_heap_Nil: "is_heap []"
  by (simp add: is_heap_def)

lemma is_heap_single: "is_heap [x]"
  by (simp add: is_heap_def)

text \<open>The root of a heap is a least entry.\<close>

lemma is_heap_root:
  assumes "is_heap xs" and "i < length xs"
  shows "node_f (xs ! 0) \<le> node_f (xs ! i)"
  using assms(2)
proof (induction i rule: less_induct)
  case (less i)
  show ?case
  proof (cases "i = 0")
    case True
    then show ?thesis by simp
  next
    case False
    then have p: "(i - 1) div 2 < i" by arith
    with less.prems have "(i - 1) div 2 < length xs" by simp
    with less.IH[OF p] have "node_f (xs ! 0) \<le> node_f (xs ! ((i - 1) div 2))" .
    moreover from assms(1) False less.prems
    have "node_f (xs ! ((i - 1) div 2)) \<le> node_f (xs ! i)"
      by (simp add: is_heap_def)
    ultimately show ?thesis by simp
  qed
qed

subsection \<open>\<open>_siftdown\<close>\<close>

lemma siftdown_loop_length:
  "length (siftdown_loop heap startpos pos newitem) = length heap"
  by (induction heap startpos pos newitem rule: siftdown_loop.induct)
     (subst siftdown_loop.simps, simp add: Let_def)

lemma siftdown_loop_mset:
  "pos < length heap \<Longrightarrow>
   mset (siftdown_loop heap startpos pos newitem) = mset (heap[pos := newitem])"
proof (induction heap startpos pos newitem rule: siftdown_loop.induct)
  case (1 heap startpos pos newitem)
  let ?pp = "(pos - 1) div 2"
  show ?case
  proof (cases "pos > startpos \<and> node_lt newitem (heap ! ?pp)")
    case True
    then have pp: "?pp < pos" by arith
    with "1.prems" have ppl: "?pp < length heap" by simp
    from True have "siftdown_loop heap startpos pos newitem =
        siftdown_loop (heap[pos := heap ! ?pp]) startpos ?pp newitem"
      by (subst siftdown_loop.simps) (simp add: Let_def)
    also have "mset \<dots> = mset (heap[pos := heap ! ?pp, ?pp := newitem])"
      using "1.IH"[OF _ refl refl] True ppl by simp
    also have "\<dots> = mset (heap[pos := newitem])"
    proof -
      let ?ys = "heap[pos := newitem]"
      from pp have "heap[pos := heap ! ?pp, ?pp := newitem] = ?ys[pos := ?ys ! ?pp, ?pp := ?ys ! pos]"
        using "1.prems" by simp
      moreover have "mset (?ys[pos := ?ys ! ?pp, ?pp := ?ys ! pos]) = mset ?ys"
        by (rule mset_swap) (use "1.prems" ppl in simp_all)
      ultimately show ?thesis by simp
    qed
    finally show ?thesis .
  next
    case False
    then show ?thesis
      by (subst siftdown_loop.simps) (auto simp: Let_def)
  qed
qed

lemma siftdown_loop_heap:
  "pos < length heap \<Longrightarrow> heap_except_up (heap[pos := newitem]) pos \<Longrightarrow>
   is_heap (siftdown_loop heap 0 pos newitem)"
proof (induction heap "0::nat" pos newitem rule: siftdown_loop.induct)
  case (1 heap pos newitem)
  let ?pp = "(pos - 1) div 2"
  let ?ys = "heap[pos := newitem]"
  note ex = "1.prems"(2)[unfolded heap_except_up_def, rule_format]
  show ?case
  proof (cases "pos > 0 \<and> node_lt newitem (heap ! ?pp)")
    case True
    then have pp: "?pp < pos" by arith
    with "1.prems" have ppl: "?pp < length heap" by simp
    let ?zs = "heap[pos := heap ! ?pp, ?pp := newitem]"
    from True have lt: "node_f newitem < node_f (heap ! ?pp)" by (simp add: node_lt_f)
    have eq: "siftdown_loop heap 0 pos newitem =
        siftdown_loop (heap[pos := heap ! ?pp]) 0 ?pp newitem"
      using True by (subst siftdown_loop.simps) (simp add: Let_def)
    have "heap_except_up ?zs ?pp"
      unfolding heap_except_up_def
    proof (intro allI impI conjI)
      fix x assume x: "0 < x \<and> x < length ?zs" and ne: "x \<noteq> ?pp"
      then have xl: "x < length heap" and x0: "0 < x" by simp_all
      have pxl: "(x - 1) div 2 < x" using x0 by arith
      show "node_f (?zs ! ((x - 1) div 2)) \<le> node_f (?zs ! x)"
      proof (cases "x = pos")
        case True
        with pp ppl xl lt show ?thesis by simp
      next
        case xne: False
        with ne xl have zx: "?zs ! x = ?ys ! x" by simp
        from ex[of x] x0 xl xne
        have e1: "node_f (?ys ! ((x - 1) div 2)) \<le> node_f (?ys ! x)" by simp
        consider "(x - 1) div 2 = ?pp" | "(x - 1) div 2 = pos" | "(x - 1) div 2 \<noteq> ?pp" "(x - 1) div 2 \<noteq> pos"
          by blast
        then show ?thesis
        proof cases
          case 1
          with e1 pp ppl have "node_f (heap ! ?pp) \<le> node_f (?ys ! x)" by simp
          with 1 lt zx ppl show ?thesis by simp
        next
          case 2
          with ex[of x] x0 xl True have "node_f (?ys ! ?pp) \<le> node_f (?ys ! x)" by simp
          with 2 pp ppl zx "1.prems"(1) show ?thesis by simp
        next
          case 3
          with e1 zx pxl xl xne show ?thesis by simp
        qed
      qed
    next
      fix x assume x: "0 < x \<and> x < length ?zs" and par: "(x - 1) div 2 = ?pp \<and> 0 < ?pp"
      then have xl: "x < length heap" and x0: "0 < x" by simp_all
      let ?gp = "(?pp - 1) div 2"
      from par have gp: "?gp < ?pp" by arith
      from ex[of ?pp] par pp ppl gp
      have e2: "node_f (heap ! ?gp) \<le> node_f (heap ! ?pp)" by simp
      from gp pp ppl have zg: "?zs ! ?gp = heap ! ?gp" by simp
      show "node_f (?zs ! ?gp) \<le> node_f (?zs ! x)"
      proof (cases "x = pos")
        case True
        with zg e2 pp xl show ?thesis by simp
      next
        case False
        from par x0 have "x \<noteq> ?pp" by arith
        with False xl have zx: "?zs ! x = ?ys ! x" by simp
        from ex[of x] x0 xl False par pp ppl
        have "node_f (heap ! ?pp) \<le> node_f (?ys ! x)" by simp
        with e2 zg zx show ?thesis by simp
      qed
    qed
    with "1.hyps"[OF _ refl refl] True ppl eq show ?thesis by simp
  next
    case False
    then have eq: "siftdown_loop heap 0 pos newitem = ?ys"
      by (subst siftdown_loop.simps) (auto simp: Let_def)
    have "is_heap ?ys"
      unfolding is_heap_def
    proof (intro allI impI)
      fix x assume x: "0 < x \<and> x < length ?ys"
      show "node_f (?ys ! ((x - 1) div 2)) \<le> node_f (?ys ! x)"
      proof (cases "x = pos")
        case True
        with x False have "\<not> node_lt newitem (heap ! ?pp)" by simp
        moreover from True x have "?pp < pos" by arith
        ultimately show ?thesis using True "1.prems"(1) by (simp add: node_lt_f)
      next
        case False
        with ex[of x] x show ?thesis by simp
      qed
    qed
    with eq show ?thesis by simp
  qed
qed

subsection \<open>\<open>_siftup\<close>\<close>

lemma siftup_loop_props:
  assumes "pos < length heap" and "endpos = length heap" and "heap_hole heap pos"
    and "siftup_loop heap endpos pos = (heap1, pos1)"
  shows "length heap1 = length heap \<and> pos1 < length heap \<and> length heap \<le> 2 * pos1 + 1
       \<and> heap_hole heap1 pos1 \<and> (\<forall>v. mset (heap1[pos1 := v]) = mset (heap[pos := v]))"
  using assms
proof (induction heap endpos pos arbitrary: heap1 pos1 rule: siftup_loop.induct)
  case (1 heap endpos pos)
  let ?l = "2 * pos + 1"
  note hole = "1.prems"(3)[unfolded heap_hole_def, rule_format]
  show ?case
  proof (cases "?l < endpos")
    case False
    with "1.prems"(4) have "heap1 = heap" "pos1 = pos"
      by (simp_all add: siftup_loop.simps[of heap endpos pos] Let_def)
    with False "1.prems" show ?thesis by simp
  next
    case True
    define c where "c = (if ?l + 1 < endpos \<and> \<not> node_lt (heap ! ?l) (heap ! (?l + 1))
                         then ?l + 1 else ?l)"
    let ?h2 = "heap[pos := heap ! c]"
    have c: "c = ?l \<or> c = ?l + 1" "c < length heap" "(c - 1) div 2 = pos" "pos < c"
      using True "1.prems"(2) by (auto simp: c_def)
    have least: "node_f (heap ! c) \<le> node_f (heap ! x)"
      if "(x - 1) div 2 = pos" "0 < x" "x < length heap" for x
    proof -
      from that have "x = ?l \<or> x = ?l + 1" by arith
      with that "1.prems"(2) show ?thesis
        by (auto simp: c_def node_lt_f)
    qed
    from True "1.prems"(4) have rec: "siftup_loop ?h2 endpos c = (heap1, pos1)"
      by (auto simp: siftup_loop.simps[of heap endpos pos] Let_def c_def)
    have "heap_hole ?h2 c"
      unfolding heap_hole_def
    proof (intro allI impI conjI)
      fix x assume x: "0 < x \<and> x < length ?h2" and ne: "x \<noteq> c \<and> (x - 1) div 2 \<noteq> c"
      then have x0: "0 < x" and xl: "x < length heap" by simp_all
      have px: "(x - 1) div 2 < x" using x0 by arith
      show "node_f (?h2 ! ((x - 1) div 2)) \<le> node_f (?h2 ! x)"
      proof (cases "x = pos")
        case True
        with x0 px have "(x - 1) div 2 \<noteq> pos" by simp
        moreover from hole[of c] c True x0
        have "node_f (heap ! ((pos - 1) div 2)) \<le> node_f (heap ! c)" by simp
        ultimately show ?thesis using True xl by simp
      next
        case xne: False
        show ?thesis
        proof (cases "(x - 1) div 2 = pos")
          case True
          with least[of x] x0 xl xne "1.prems"(1) show ?thesis by simp
        next
          case False
          with hole[of x] x0 xl xne show ?thesis by simp
        qed
      qed
    next
      fix x assume x: "0 < x \<and> x < length ?h2" and par: "(x - 1) div 2 = c \<and> 0 < c"
      then have x0: "0 < x" and xl: "x < length heap" by simp_all
      from par c(4) x0 have "x \<noteq> pos" "(x - 1) div 2 \<noteq> pos" "c < x" by arith+
      with hole[of x] x0 xl par c "1.prems"(1)
      show "node_f (?h2 ! ((c - 1) div 2)) \<le> node_f (?h2 ! x)" by simp
    qed
    with "1.IH"[OF refl True refl refl _ _ _ rec[unfolded c_def], folded c_def] c "1.prems"(2)
    have *: "length heap1 = length ?h2 \<and> pos1 < length ?h2 \<and> length ?h2 \<le> 2 * pos1 + 1
       \<and> heap_hole heap1 pos1 \<and> (\<forall>v. mset (heap1[pos1 := v]) = mset (?h2[c := v]))"
      by simp
    have "mset (?h2[c := v]) = mset (heap[pos := v])" for v
    proof -
      let ?ys = "heap[pos := v]"
      from c have "?h2[c := v] = ?ys[pos := ?ys ! c, c := ?ys ! pos]"
        using "1.prems"(1) by simp
      moreover have "mset (?ys[pos := ?ys ! c, c := ?ys ! pos]) = mset ?ys"
        by (rule mset_swap) (use "1.prems"(1) c in simp_all)
      ultimately show ?thesis by simp
    qed
    with * show ?thesis by simp
  qed
qed

subsection \<open>\<open>heappush\<close> and \<open>heappop\<close>\<close>

lemma heappush_mset: "mset (heappush heap item) = add_mset item (mset heap)"
  by (simp add: heappush_def siftdown_def siftdown_loop_mset)

lemma heappush_heap:
  assumes "is_heap heap"
  shows "is_heap (heappush heap item)"
proof -
  let ?n = "length heap"
  have "heap_except_up ((heap @ [item])[?n := item]) ?n"
    unfolding heap_except_up_def
  proof (intro allI impI conjI)
    fix x assume x: "0 < x \<and> x < length ((heap @ [item])[?n := item])" and "x \<noteq> ?n"
    then have "x < ?n" "(x - 1) div 2 < ?n" by auto
    with assms x show "node_f ((heap @ [item])[?n := item] ! ((x - 1) div 2))
                     \<le> node_f ((heap @ [item])[?n := item] ! x)"
      by (simp add: is_heap_def nth_append)
  next
    fix x assume x: "0 < x \<and> x < length ((heap @ [item])[?n := item])"
      and "(x - 1) div 2 = ?n \<and> 0 < ?n"
    then have False by auto
    then show "node_f ((heap @ [item])[?n := item] ! ((?n - 1) div 2))
             \<le> node_f ((heap @ [item])[?n := item] ! x)" ..
  qed
  then show ?thesis
    by (simp add: heappush_def siftdown_def siftdown_loop_heap)
qed

lemma heappop_props:
  assumes "is_heap heap" and "heap \<noteq> []" and "heappop heap = (m, rest)"
  shows "m = heap ! 0 \<and> mset heap = add_mset m (mset rest) \<and> is_heap rest"
proof (cases "butlast heap = []")
  case True
  with assms(2) have "heap = [last heap]"
    by (metis append_butlast_last_id append_Nil)
  with True assms(3) show ?thesis
    by (auto simp: heappop_def Let_def is_heap_Nil)
next
  case False
  let ?b = "butlast heap"
  let ?h = "?b[0 := last heap]"
  obtain heap1 pos1 where sl: "siftup_loop ?h (length ?h) 0 = (heap1, pos1)"
    by (cases "siftup_loop ?h (length ?h) 0") blast
  have b0: "0 < length ?b"
    using False length_greater_0_conv[of "butlast heap"] by blast
  have heap_eq: "heap = ?b @ [last heap]"
    using assms(2) by simp
  have bh: "node_f (?b ! ((x - 1) div 2)) \<le> node_f (?b ! x)" if "0 < x" "x < length ?b" for x
  proof -
    from that have "(x - 1) div 2 < length ?b" "x < length heap" by auto
    with that assms(1) show ?thesis
      by (simp add: is_heap_def nth_butlast)
  qed
  have "heap_hole ?h 0"
    unfolding heap_hole_def
  proof (intro allI impI conjI)
    fix x assume x: "0 < x \<and> x < length ?h" and ne: "x \<noteq> 0 \<and> (x - 1) div 2 \<noteq> 0"
    with bh[of x] show "node_f (?h ! ((x - 1) div 2)) \<le> node_f (?h ! x)" by simp
  next
    fix x :: nat assume "0 < x \<and> x < length ?h" and "(x - 1) div 2 = 0 \<and> 0 < (0::nat)"
    then show "node_f (?h ! ((0 - 1) div 2)) \<le> node_f (?h ! x)" by simp
  qed
  from siftup_loop_props[OF _ refl this sl] b0
  have p: "length heap1 = length ?h" "pos1 < length ?h" "length ?h \<le> 2 * pos1 + 1"
    "heap_hole heap1 pos1" "\<And>v. mset (heap1[pos1 := v]) = mset (?h[0 := v])"
    by simp_all
  note hole = p(4)[unfolded heap_hole_def, rule_format]
  let ?f = "heap1[pos1 := last heap]"
  have rest: "rest = siftdown_loop ?f 0 pos1 (last heap)" and m: "m = ?b ! 0"
    using assms(3) False sl p(1,2) by (auto simp: heappop_def Let_def siftup_def siftdown_def)
  have "heap_except_up (?f[pos1 := last heap]) pos1"
    unfolding heap_except_up_def
  proof (intro allI impI conjI)
    fix x assume x: "0 < x \<and> x < length (?f[pos1 := last heap])" and ne: "x \<noteq> pos1"
    from x p(1,3) have "(x - 1) div 2 \<noteq> pos1" by auto
    with hole[of x] x ne
    show "node_f (?f[pos1 := last heap] ! ((x - 1) div 2)) \<le> node_f (?f[pos1 := last heap] ! x)"
      by simp
  next
    fix x assume x: "0 < x \<and> x < length (?f[pos1 := last heap])"
      and "(x - 1) div 2 = pos1 \<and> 0 < pos1"
    with p(1,3) have False by auto
    then show "node_f (?f[pos1 := last heap] ! ((pos1 - 1) div 2))
             \<le> node_f (?f[pos1 := last heap] ! x)" ..
  qed
  with p(1,2) have "is_heap rest"
    unfolding rest by (intro siftdown_loop_heap) simp_all
  moreover have "mset rest = mset ?h"
    unfolding rest using p(1,2) p(5)[of "last heap"] by (simp add: siftdown_loop_mset)
  moreover have "mset heap = add_mset (?b ! 0) (mset ?h)"
  proof -
    have "mset ?h = add_mset (last heap) (mset ?b - {#?b ! 0#})"
      using b0 by (simp add: mset_update)
    moreover have "?b ! 0 \<in># mset ?b"
      using b0 by simp
    moreover have "mset heap = add_mset (last heap) (mset ?b)"
      by (subst heap_eq) simp
    ultimately show ?thesis by simp
  qed
  moreover have "?b ! 0 = heap ! 0"
    using b0 by (simp add: nth_butlast)
  ultimately show ?thesis using m by simp
qed

lemma heappop_least:
  assumes "is_heap heap" and "heap \<noteq> []" and "n \<in> set heap"
  shows "node_f (fst (heappop heap)) \<le> node_f n"
proof -
  from assms(3) obtain i where "i < length heap" "heap ! i = n"
    by (auto simp: in_set_conv_nth)
  with is_heap_root[OF assms(1), of i] heappop_props[OF assms(1,2), of "fst (heappop heap)" "snd (heappop heap)"]
  show ?thesis by simp
qed

section \<open>Routes\<close>

lemma legal_path_nonempty: "legal_path p \<Longrightarrow> p \<noteq> []"
  by (cases p) simp_all

lemma legal_path_snoc:
  "legal_path p \<Longrightarrow> blank_move (last p) t \<Longrightarrow> legal_path (p @ [t])"
  by (induction p rule: legal_path.induct) simp_all

lemma legal_path_nth:
  "legal_path p \<Longrightarrow> Suc i < length p \<Longrightarrow> blank_move (p ! i) (p ! Suc i)"
proof (induction p arbitrary: i rule: legal_path.induct)
  case (3 s t rest)
  then show ?case by (cases i) simp_all
qed simp_all

lemma legal_path_take:
  "legal_path p \<Longrightarrow> legal_path (take (Suc i) p)"
proof (induction p arbitrary: i rule: legal_path.induct)
  case (3 s t rest)
  then show ?case by (cases i) simp_all
qed simp_all

lemma route_take:
  assumes "route a b p" and "i < length p"
  shows "route a (p ! i) (take (Suc i) p)"
proof -
  from assms have "p \<noteq> []" by (auto simp: route_def legal_path_nonempty)
  then have "hd (take (Suc i) p) = hd p" by (cases p) simp_all
  moreover from assms(2) have "last (take (Suc i) p) = p ! i"
    by (simp add: take_Suc_conv_app_nth)
  ultimately show ?thesis
    using assms(1) by (simp add: route_def legal_path_take)
qed

lemma route_snoc:
  "route a b p \<Longrightarrow> blank_move b t \<Longrightarrow> route a t (p @ [t])"
  by (auto simp: route_def legal_path_snoc dest: legal_path_nonempty)

lemma route_single: "route a a [a]"
  by (simp add: route_def)

text \<open>Along a route from a valid grid every grid is valid, and the heuristic falls by at
  most one per move.\<close>

lemma legal_path_valid:
  "legal_path p \<Longrightarrow> valid_grid (hd p) \<Longrightarrow> i < length p \<Longrightarrow>
   valid_grid (p ! i) \<and> hval (p ! i) \<le> hval (last p) + (int (length p) - 1 - int i)"
proof (induction p arbitrary: i rule: legal_path.induct)
  case 1
  then show ?case by simp
next
  case (2 s)
  then show ?case by simp
next
  case (3 s t rest)
  from "3.prems" have bm: "blank_move s t" and v: "valid_grid s" by simp_all
  with nbs_valid(2,3)[OF v, of t] have vt: "valid_grid t" and ht: "\<bar>hval t - hval s\<bar> \<le> 1"
    by simp_all
  show ?case
  proof (cases i)
    case 0
    from "3.IH"[of 0] "3.prems"(1) vt
    have "hval t \<le> hval (last (t # rest)) + (int (length (t # rest)) - 1)" by simp
    with ht v 0 show ?thesis by simp
  next
    case (Suc j)
    with "3.IH"[of j] "3.prems" vt show ?thesis by simp
  qed
qed

section \<open>One pass of the loop\<close>

lemma push_neighbors_mset:
  assumes "\<forall>t\<in>set ns. three_by_three t"
  shows "\<exists>ol'. push_neighbors current cl ns ol = Inr ol' \<and>
           mset ol' = mset ol + mset (map (child current) (filter (\<lambda>t. t \<notin> cl) ns))"
  using assms
proof (induction ns arbitrary: ol)
  case Nil
  then show ?case by simp
next
  case (Cons t ns)
  show ?case
  proof (cases "t \<in> cl")
    case True
    with Cons.IH[of ol] Cons.prems show ?thesis by simp
  next
    case False
    let ?ol = "heappush ol (child current t)"
    from Cons.prems have m: "manhattan_distance t = Inr (hval t)"
      by (simp add: manhattan_hval)
    from Cons.IH[of ?ol] Cons.prems obtain ol' where
      "push_neighbors current cl ns ?ol = Inr ol'"
      "mset ol' = mset ?ol + mset (map (child current) (filter (\<lambda>t. t \<notin> cl) ns))"
      by auto
    moreover have "PuzzleNode t (Some current) (node_g current + 1) (hval t) = child current t"
      by (simp add: child_def)
    ultimately show ?thesis
      using False m by (simp add: heappush_mset)
  qed
qed

lemma push_neighbors_heap:
  "is_heap ol \<Longrightarrow> push_neighbors current cl ns ol = Inr ol' \<Longrightarrow> is_heap ol'"
proof (induction ns arbitrary: ol)
  case Nil
  then show ?case by simp
next
  case (Cons t ns)
  show ?case
  proof (cases "t \<in> cl")
    case True
    with Cons show ?thesis by simp
  next
    case False
    show ?thesis
    proof (cases "manhattan_distance t")
      case (Inl e)
      with False Cons.prems show ?thesis by simp
    next
      case (Inr hv)
      with False Cons.prems Cons.IH[of "heappush ol (PuzzleNode t (Some current) (node_g current + 1) hv)"]
      show ?thesis by (simp add: heappush_heap)
    qed
  qed
qed

lemma push_neighbors_props:
  assumes "\<forall>t\<in>set ns. three_by_three t" and "is_heap ol"
  shows "\<exists>ol'. push_neighbors current cl ns ol = Inr ol' \<and> is_heap ol' \<and>
           mset ol' = mset ol + mset (map (child current) (filter (\<lambda>t. t \<notin> cl) ns))"
  using push_neighbors_mset[OF assms(1), of current cl ol] push_neighbors_heap[OF assms(2)]
  by blast

lemma path_to_nonempty: "path_to n \<noteq> []"
  by (cases n) simp

lemma child_ok:
  assumes "node_ok init n" and "t \<in> set (nbs (node_state n))"
  shows "node_ok init (child n t)"
proof -
  from assms(1) have v: "valid_grid (node_state n)" by (simp add: node_ok_def)
  from nbs_valid(2,3)[OF v, of t] assms(2) have t: "blank_move (node_state n) t" "valid_grid t"
    by simp_all
  have "path_to (child n t) = t # path_to n"
    by (cases n) (simp add: child_def)
  moreover from assms(1) t(1) have "route init t (rev (path_to n) @ [t])"
    by (auto simp: node_ok_def intro: route_snoc)
  ultimately show ?thesis
    using assms(1) t(2) by (simp add: node_ok_def child_def)
qed

text \<open>
  On every route from \<open>init\<close> to a state outside the explored set, some grid waits in
  the frontier at a depth no greater than its place on the route.
\<close>

lemma frontier_on_route:
  assumes inv: "search_inv init ol cl" and r: "route init s p" and s: "s \<notin> cl"
  shows "\<exists>j<length p. \<exists>m\<in>set ol. node_state m = p ! j \<and> node_g m \<le> int j"
proof -
  from r have ne: "p \<noteq> []" and lp: "legal_path p" and hd: "hd p = init" and last: "last p = s"
    by (auto simp: route_def legal_path_nonempty)
  define P where "P j \<longleftrightarrow> j < length p \<and> p ! j \<notin> cl" for j
  from ne last s have "P (length p - 1)"
    by (simp add: P_def last_conv_nth)
  then have Pj: "P (Least P)" by (rule LeastI)
  have least: "\<not> P i" if "i < Least P" for i
    using that by (rule not_less_Least)
  define j where "j = Least P"
  from Pj have jl: "j < length p" and jc: "p ! j \<notin> cl" by (simp_all add: P_def j_def)
  show ?thesis
  proof (cases j)
    case 0
    with jc ne hd have "init \<notin> cl" by (simp add: hd_conv_nth)
    with inv obtain m where "m \<in> set ol" "node_state m = init" "node_g m = 0"
      by (auto simp: search_inv_def)
    with 0 jl ne hd show ?thesis
      by (intro exI[of _ 0]) (auto simp: hd_conv_nth)
  next
    case (Suc i)
    with jl least[of i] have il: "i < length p" and ic: "p ! i \<in> cl"
      by (simp_all add: P_def j_def)
    from inv ic obtain e where
      e: "\<forall>q. route init (p ! i) q \<longrightarrow> e + 1 \<le> int (length q)"
      and nb: "\<forall>t\<in>set (nbs (p ! i)). t \<in> cl \<or> (\<exists>m\<in>set ol. node_state m = t \<and> node_g m \<le> e + 1)"
      and v: "valid_grid (p ! i)"
      unfolding search_inv_def by blast
    from route_take[OF r il] e il have "e \<le> int i" by force
    moreover from legal_path_nth[OF lp, of i] jl Suc have "blank_move (p ! i) (p ! j)" by simp
    with nbs_valid(2)[OF v] have "p ! j \<in> set (nbs (p ! i))" by simp
    with nb jc obtain m where "m \<in> set ol" "node_state m = p ! j" "node_g m \<le> e + 1" by blast
    ultimately show ?thesis using jl Suc by (intro exI[of _ j]) auto
  qed
qed

text \<open>The popped node of a state outside the explored set is at the least depth of any
  route to that state.\<close>

lemma pop_optimal:
  assumes inv: "search_inv init ol cl" and ne: "ol \<noteq> []"
    and s: "node_state (fst (heappop ol)) \<notin> cl"
    and r: "route init (node_state (fst (heappop ol))) p"
  shows "node_g (fst (heappop ol)) + 1 \<le> int (length p)"
proof -
  let ?n = "fst (heappop ol)"
  from inv have h: "is_heap ol" and v: "valid_grid init" by (simp_all add: search_inv_def)
  from heappop_props[OF h ne, of ?n "snd (heappop ol)"] ne have nin: "?n \<in> set ol"
    by (cases ol) auto
  with inv have nh: "node_h ?n = hval (node_state ?n)"
    by (simp add: search_inv_def node_ok_def)
  from frontier_on_route[OF inv r s] obtain j m where
    jm: "j < length p" "m \<in> set ol" "node_state m = p ! j" "node_g m \<le> int j"
    by blast
  from inv jm(2) have mh: "node_h m = hval (node_state m)"
    by (simp add: search_inv_def node_ok_def)
  from r v have "legal_path p" "valid_grid (hd p)" "last p = node_state ?n"
    by (simp_all add: route_def)
  with legal_path_valid[of p j] jm(1)
  have "hval (p ! j) \<le> hval (node_state ?n) + (int (length p) - 1 - int j)" by simp
  moreover from heappop_least[OF h ne jm(2)] have "node_f ?n \<le> node_f m" .
  ultimately show ?thesis
    using nh mh jm(3,4) by (simp add: node_f_def)
qed

lemma wf_progress: "wf progress"
  unfolding progress_def by (intro wf_inv_image wf_lex_prod wf_less_than)

lemma progress_iff:
  "((ol', cl'), (ol, cl)) \<in> progress \<longleftrightarrow>
     card ({s. valid_grid s} - cl') < card ({s. valid_grid s} - cl) \<or>
     card ({s. valid_grid s} - cl') = card ({s. valid_grid s} - cl) \<and>
     length (filter (\<lambda>n. node_state n \<in> cl') ol') < length (filter (\<lambda>n. node_state n \<in> cl) ol)"
  by (simp add: progress_def)

lemma no_explored_child:
  "filter (\<lambda>m. node_state m \<in> cl) (map (child n) (filter (\<lambda>t. t \<notin> cl) ns)) = []"
  by (induction ns) (simp_all add: child_def)

text \<open>
  A pass from a state that satisfies the invariant, on a non-empty frontier, either returns
  a shortest route to \<open>goal_state\<close> or leaves a state that satisfies the invariant and is
  smaller in the order of progress.
\<close>

lemma search_step_props:
  assumes inv: "search_inv init ol cl" and ne: "ol \<noteq> []"
  shows "(\<exists>p. search_step ol cl = Finished (Inr (Some p)) \<and> result_ok init (Some p)) \<or>
         (\<exists>ol' cl'. search_step ol cl = Next ol' cl' \<and> search_inv init ol' cl' \<and>
                    ((ol', cl'), (ol, cl)) \<in> progress)"
proof -
  obtain n rest where pop: "heappop ol = (n, rest)"
    by (cases "heappop ol") blast
  from inv have h: "is_heap ol" and vi: "valid_grid init"
    and oks: "\<forall>m\<in>set ol. node_ok init m"
    and clv: "\<forall>s\<in>cl. valid_grid s \<and> s \<noteq> goal_state"
    and root: "init \<in> cl \<or> (\<exists>m\<in>set ol. node_state m = init \<and> node_g m = 0)"
    and exp: "\<forall>s\<in>cl. \<exists>e. (\<forall>p. route init s p \<longrightarrow> e + 1 \<le> int (length p)) \<and>
        (\<forall>t\<in>set (nbs s). t \<in> cl \<or> (\<exists>m\<in>set ol. node_state m = t \<and> node_g m \<le> e + 1))"
    by (simp_all add: search_inv_def)
  from heappop_props[OF h ne pop] have ms: "mset ol = add_mset n (mset rest)"
    and hr: "is_heap rest" by simp_all
  from ms have "set_mset (mset ol) = set_mset (add_mset n (mset rest))" by simp
  then have sol: "set ol = insert n (set rest)" by simp
  with oks have ok: "node_ok init n" by simp
  let ?s = "node_state n"
  from ok have vs: "valid_grid ?s" and rt: "route init ?s (rev (path_to n))"
    and len: "int (length (path_to n)) = node_g n + 1"
    by (simp_all add: node_ok_def)
  from pop have fst: "fst (heappop ol) = n" by simp
  show ?thesis
  proof (cases "?s = goal_state")
    case True
    with pop have "search_step ol cl = Finished (Inr (Some (rev (path_to n))))"
      by (simp add: search_step_def)
    moreover have "length (rev (path_to n)) \<le> length q" if "route init goal_state q" for q
    proof -
      from clv True have "node_state (fst (heappop ol)) \<notin> cl" using fst by auto
      from pop_optimal[OF inv ne this, of q] that True fst
      have "node_g n + 1 \<le> int (length q)" by simp
      with len show ?thesis by simp
    qed
    ultimately show ?thesis
      using rt True by (simp add: result_ok_def)
  next
    case False
    let ?cl = "insert ?s cl"
    let ?new = "map (child n) (filter (\<lambda>t. t \<notin> ?cl) (nbs ?s))"
    from nbs_valid(1)[OF vs] have gn: "get_neighbors ?s = Inr (nbs ?s)" .
    from nbs_valid(3)[OF vs] have "\<forall>t\<in>set (nbs ?s). three_by_three t"
      by (simp add: valid_three_by_three)
    from push_neighbors_props[OF this hr, of n ?cl] obtain ol' where
      push: "push_neighbors n ?cl (nbs ?s) rest = Inr ol'" and h': "is_heap ol'"
      and ms': "mset ol' = mset rest + mset ?new"
      by blast
    from ms' have "set_mset (mset ol') = set_mset (mset rest + mset ?new)" by simp
    then have sol': "set ol' = set rest \<union> set ?new" by simp
    from pop False gn push have step: "search_step ol cl = Next ol' ?cl"
      by (simp add: search_step_def)
    have keep: "m \<in> set ol' \<or> node_state m \<in> ?cl" if "m \<in> set ol" for m
      using that sol sol' by auto
    have "search_inv init ol' ?cl"
      unfolding search_inv_def
    proof (intro conjI ballI)
      show "valid_grid init" by (rule vi)
      show "is_heap ol'" by (rule h')
    next
      fix m assume "m \<in> set ol'"
      with sol' consider "m \<in> set rest" | t where "m = child n t" "t \<in> set (nbs ?s)"
        by auto
      then show "node_ok init m"
      proof cases
        case 1
        with sol oks show ?thesis by simp
      next
        case 2
        with child_ok[OF ok] show ?thesis by simp
      qed
    next
      fix s assume "s \<in> ?cl"
      with clv vs False show "valid_grid s" "s \<noteq> goal_state" by auto
    next
      from root show "init \<in> ?cl \<or> (\<exists>m\<in>set ol'. node_state m = init \<and> node_g m = 0)"
      proof
        assume "init \<in> cl"
        then show ?thesis by simp
      next
        assume "\<exists>m\<in>set ol. node_state m = init \<and> node_g m = 0"
        then obtain m where m: "m \<in> set ol" "node_state m = init" "node_g m = 0" by blast
        with keep[OF m(1)] show ?thesis by auto
      qed
    next
      fix s assume s: "s \<in> ?cl"
      show "\<exists>e. (\<forall>p. route init s p \<longrightarrow> e + 1 \<le> int (length p)) \<and>
        (\<forall>t\<in>set (nbs s). t \<in> ?cl \<or> (\<exists>m\<in>set ol'. node_state m = t \<and> node_g m \<le> e + 1))"
      proof (cases "s \<in> cl")
        case True
        with exp obtain e where e: "\<forall>p. route init s p \<longrightarrow> e + 1 \<le> int (length p)"
          and nb: "\<forall>t\<in>set (nbs s). t \<in> cl \<or> (\<exists>m\<in>set ol. node_state m = t \<and> node_g m \<le> e + 1)"
          by blast
        have "t \<in> ?cl \<or> (\<exists>m\<in>set ol'. node_state m = t \<and> node_g m \<le> e + 1)"
          if "t \<in> set (nbs s)" for t
        proof -
          from nb that consider "t \<in> cl" | m where "m \<in> set ol" "node_state m = t" "node_g m \<le> e + 1"
            by blast
          then show ?thesis
          proof cases
            case 1
            then show ?thesis by simp
          next
            case 2
            with keep[OF 2(1)] show ?thesis by auto
          qed
        qed
        with e show ?thesis by blast
      next
        case False
        with s have eq: "s = ?s" by simp
        from False eq have out: "node_state (fst (heappop ol)) \<notin> cl" using fst by simp
        have "node_g n + 1 \<le> int (length p)" if "route init s p" for p
          using pop_optimal[OF inv ne out] that eq fst by simp
        moreover have "t \<in> ?cl \<or> (\<exists>m\<in>set ol'. node_state m = t \<and> node_g m \<le> node_g n + 1)"
          if "t \<in> set (nbs s)" for t
        proof (cases "t \<in> ?cl")
          case True
          then show ?thesis by simp
        next
          case False
          with that eq have "child n t \<in> set ol'" by (simp add: sol')
          then show ?thesis
            by (intro disjI2 bexI[of _ "child n t"]) (simp_all add: child_def)
        qed
        ultimately show ?thesis by blast
      qed
    qed
    moreover have "((ol', ?cl), (ol, cl)) \<in> progress"
    proof (cases "?s \<in> cl")
      case True
      then have same: "?cl = cl" by auto
      let ?P = "\<lambda>m. node_state m \<in> cl"
      have "length (filter ?P ol') = size (filter_mset ?P (mset ol'))"
        by (simp flip: mset_filter)
      also have "\<dots> = size (filter_mset ?P (mset rest)) + size (filter_mset ?P (mset ?new))"
        by (simp add: ms')
      also have "filter_mset ?P (mset ?new) = {#}"
        unfolding same mset_filter[symmetric] no_explored_child by simp
      also have "size (filter_mset ?P (mset rest)) + size ({#}::node multiset)
          < size (filter_mset ?P (mset ol))"
        using True by (simp add: ms)
      also have "\<dots> = length (filter ?P ol)"
        by (simp flip: mset_filter)
      finally show ?thesis
        by (simp add: progress_iff same)
    next
      case False
      with vs have "?s \<in> {s. valid_grid s} - cl" by simp
      moreover have "finite ({s. valid_grid s} - cl)"
        using finite_valid by simp
      ultimately have "card ({s. valid_grid s} - cl - {?s}) < card ({s. valid_grid s} - cl)"
        by (rule card_Diff1_less[rotated])
      moreover have "{s. valid_grid s} - ?cl = {s. valid_grid s} - cl - {?s}" by auto
      ultimately show ?thesis
        by (simp add: progress_iff)
    qed
    ultimately show ?thesis using step by blast
  qed
qed

section \<open>The loop and the solver return\<close>

lemma search_loop_total:
  assumes "search_inv init ol cl"
  shows "\<exists>r. search_loop ol cl = Some (Inr r) \<and> result_ok init r"
  using wf_progress assms
proof (induction "(ol, cl)" arbitrary: ol cl rule: wf_induct_rule)
  case less
  show ?case
  proof (cases "ol = []")
    case True
    have "\<not> solvable init"
    proof
      assume "solvable init"
      then obtain p where p: "route init goal_state p" by (auto simp: solvable_def)
      from less.prems have "goal_state \<notin> cl" by (auto simp: search_inv_def)
      from frontier_on_route[OF less.prems p this] True show False by simp
    qed
    with True show ?thesis
      by (subst search_loop.simps) (simp add: result_ok_def)
  next
    case False
    from search_step_props[OF less.prems False] show ?thesis
    proof (elim disjE exE conjE)
      fix p assume "search_step ol cl = Finished (Inr (Some p))" "result_ok init (Some p)"
      with False show ?thesis
        by (subst search_loop.simps) simp
    next
      fix ol' cl'
      assume step: "search_step ol cl = Next ol' cl'" and inv': "search_inv init ol' cl'"
        and prog: "((ol', cl'), (ol, cl)) \<in> progress"
      from less.hyps[OF prog inv'] obtain r where
        "search_loop ol' cl' = Some (Inr r)" "result_ok init r" by blast
      with False step show ?thesis
        by (subst search_loop.simps) simp
    qed
  qed
qed

lemma initial_inv:
  assumes "valid_grid init"
  shows "search_inv init [PuzzleNode init None 0 (hval init)] {}"
  using assms by (simp add: search_inv_def is_heap_single node_ok_def route_single)

lemma solve_puzzle_total:
  assumes "valid_grid init"
  shows "\<exists>r. solve_puzzle init = Some (Inr r) \<and> result_ok init r"
proof -
  from assms have "manhattan_distance init = Inr (hval init)"
    by (simp add: manhattan_hval valid_three_by_three)
  with search_loop_total[OF initial_inv[OF assms]] show ?thesis
    by (simp add: solve_puzzle_def)
qed

section \<open>Facts about single passes\<close>

lemma search_step_heap:
  assumes "is_heap ol" and "ol \<noteq> []" and "search_step ol cl = Next ol' cl'"
  shows "is_heap ol'"
proof -
  obtain n rest where pop: "heappop ol = (n, rest)"
    by (cases "heappop ol") blast
  from heappop_props[OF assms(1,2) pop] have "is_heap rest" by simp
  moreover from assms(3) pop
  have "push_neighbors n (insert (node_state n) cl) (nbs (node_state n)) rest = Inr ol'"
    by (auto simp: search_step_def nbs_def Let_def split: if_splits sum.splits)
  ultimately show ?thesis by (rule push_neighbors_heap)
qed

lemma passes_heap: "is_heap (fst s) \<Longrightarrow> is_heap (fst (passes k s))"
proof (induction k arbitrary: s)
  case 0
  then show ?case by simp
next
  case (Suc k)
  show ?case
  proof (cases "fst s = []")
    case True
    with Suc.prems show ?thesis by simp
  next
    case False
    show ?thesis
    proof (cases "search_step (fst s) (snd s)")
      case (Finished r)
      with False Suc.prems show ?thesis by simp
    next
      case (Next ol' cl')
      from search_step_heap[OF Suc.prems False Next] have "is_heap (fst (ol', cl'))" by simp
      from Suc.IH[OF this] False Next show ?thesis by simp
    qed
  qed
qed

lemma heappop_single: "heappop [x] = (x, [])"
  by (simp add: heappop_def)

lemma search_step_expands:
  assumes "heappop ol = (n, rest)" and "valid_grid (node_state n)"
    and "node_state n \<noteq> goal_state"
  shows "\<exists>ol'. search_step ol cl = Next ol' (insert (node_state n) cl) \<and>
           mset ol' = mset rest +
             mset (map (child n)
                    (filter (\<lambda>t. t \<notin> insert (node_state n) cl) (nbs (node_state n))))"
proof -
  let ?s = "node_state n"
  from nbs_valid(3)[OF assms(2)] have "\<forall>t\<in>set (nbs ?s). three_by_three t"
    by (simp add: valid_three_by_three)
  from push_neighbors_mset[OF this, of n "insert ?s cl" rest] obtain ol' where
    "push_neighbors n (insert ?s cl) (nbs ?s) rest = Inr ol'"
    "mset ol' = mset rest + mset (map (child n) (filter (\<lambda>t. t \<notin> insert ?s cl) (nbs ?s)))"
    by blast
  with assms(1,3) nbs_valid(1)[OF assms(2)] show ?thesis
    by (simp add: search_step_def)
qed

section \<open>No move changes the parity\<close>

lemma inversions_rotate:
  assumes "z \<noteq> x" and "z \<noteq> y"
  shows "even (inversions (pre @ x # y # z # post)) \<longleftrightarrow>
         even (inversions (pre @ z # x # y # post))"
proof (induction pre)
  case Nil
  from assms show ?case by auto
next
  case (Cons a pre)
  have "length (filter (\<lambda>v. v < a) (pre @ x # y # z # post))
      = length (filter (\<lambda>v. v < a) (pre @ z # x # y # post))"
    by simp
  with Cons show ?case by simp
qed

text \<open>
  Exchanging the blank with the tile beside it leaves the tiles in their order; exchanging
  it with the tile above or below moves that tile past two others. In each statement one of
  \<open>x\<close>, \<open>y\<close> is the blank and every other cell holds a tile.
\<close>

lemma parity_swap_01:
  assumes "x = 0 \<and> y \<noteq> 0 \<or> y = 0 \<and> x \<noteq> 0"
    and "0 \<notin> set [c, d, e, f, g, h, k]"
  shows "odd_grid [[x, y, c], [d, e, f], [g, h, k]]
       = odd_grid [[y, x, c], [d, e, f], [g, h, k]]"
proof -
  from assms have "tiles [[x, y, c], [d, e, f], [g, h, k]]
      = tiles [[y, x, c], [d, e, f], [g, h, k]]"
    by (elim disjE conjE) (simp_all add: tiles_def)
  then show ?thesis by (simp only: odd_grid_def)
qed

lemma parity_swap_12:
  assumes "x = 0 \<and> y \<noteq> 0 \<or> y = 0 \<and> x \<noteq> 0"
    and "0 \<notin> set [a, d, e, f, g, h, k]"
  shows "odd_grid [[a, x, y], [d, e, f], [g, h, k]]
       = odd_grid [[a, y, x], [d, e, f], [g, h, k]]"
proof -
  from assms have "tiles [[a, x, y], [d, e, f], [g, h, k]]
      = tiles [[a, y, x], [d, e, f], [g, h, k]]"
    by (elim disjE conjE) (simp_all add: tiles_def)
  then show ?thesis by (simp only: odd_grid_def)
qed

lemma parity_swap_34:
  assumes "x = 0 \<and> y \<noteq> 0 \<or> y = 0 \<and> x \<noteq> 0"
    and "0 \<notin> set [a, b, c, f, g, h, k]"
  shows "odd_grid [[a, b, c], [x, y, f], [g, h, k]]
       = odd_grid [[a, b, c], [y, x, f], [g, h, k]]"
proof -
  from assms have "tiles [[a, b, c], [x, y, f], [g, h, k]]
      = tiles [[a, b, c], [y, x, f], [g, h, k]]"
    by (elim disjE conjE) (simp_all add: tiles_def)
  then show ?thesis by (simp only: odd_grid_def)
qed

lemma parity_swap_45:
  assumes "x = 0 \<and> y \<noteq> 0 \<or> y = 0 \<and> x \<noteq> 0"
    and "0 \<notin> set [a, b, c, d, g, h, k]"
  shows "odd_grid [[a, b, c], [d, x, y], [g, h, k]]
       = odd_grid [[a, b, c], [d, y, x], [g, h, k]]"
proof -
  from assms have "tiles [[a, b, c], [d, x, y], [g, h, k]]
      = tiles [[a, b, c], [d, y, x], [g, h, k]]"
    by (elim disjE conjE) (simp_all add: tiles_def)
  then show ?thesis by (simp only: odd_grid_def)
qed

lemma parity_swap_67:
  assumes "x = 0 \<and> y \<noteq> 0 \<or> y = 0 \<and> x \<noteq> 0"
    and "0 \<notin> set [a, b, c, d, e, f, k]"
  shows "odd_grid [[a, b, c], [d, e, f], [x, y, k]]
       = odd_grid [[a, b, c], [d, e, f], [y, x, k]]"
proof -
  from assms have "tiles [[a, b, c], [d, e, f], [x, y, k]]
      = tiles [[a, b, c], [d, e, f], [y, x, k]]"
    by (elim disjE conjE) (simp_all add: tiles_def)
  then show ?thesis by (simp only: odd_grid_def)
qed

lemma parity_swap_78:
  assumes "x = 0 \<and> y \<noteq> 0 \<or> y = 0 \<and> x \<noteq> 0"
    and "0 \<notin> set [a, b, c, d, e, f, g]"
  shows "odd_grid [[a, b, c], [d, e, f], [g, x, y]]
       = odd_grid [[a, b, c], [d, e, f], [g, y, x]]"
proof -
  from assms have "tiles [[a, b, c], [d, e, f], [g, x, y]]
      = tiles [[a, b, c], [d, e, f], [g, y, x]]"
    by (elim disjE conjE) (simp_all add: tiles_def)
  then show ?thesis by (simp only: odd_grid_def)
qed

lemma parity_swap_03:
  assumes "x = 0 \<and> y \<noteq> 0 \<or> y = 0 \<and> x \<noteq> 0"
    and "0 \<notin> set [b, c, e, f, g, h, k]" and "x \<notin> set [b, c]" and "y \<notin> set [b, c]"
  shows "odd_grid [[x, b, c], [y, e, f], [g, h, k]]
       = odd_grid [[y, b, c], [x, e, f], [g, h, k]]"
proof -
  from assms(1) consider "x = 0" "y \<noteq> 0" | "y = 0" "x \<noteq> 0" by blast
  then show ?thesis
  proof cases
    case 1
    with assms(2) have "tiles [[x, b, c], [y, e, f], [g, h, k]] = [b, c, y, e, f, g, h, k]"
      and "tiles [[y, b, c], [x, e, f], [g, h, k]] = [y, b, c, e, f, g, h, k]"
      by (simp_all add: tiles_def)
    with inversions_rotate[of y b c "[]" "[e, f, g, h, k]"] assms(4) show ?thesis
      by (simp add: odd_grid_def del: inversions.simps)
  next
    case 2
    with assms(2) have "tiles [[x, b, c], [y, e, f], [g, h, k]] = [x, b, c, e, f, g, h, k]"
      and "tiles [[y, b, c], [x, e, f], [g, h, k]] = [b, c, x, e, f, g, h, k]"
      by (simp_all add: tiles_def)
    with inversions_rotate[of x b c "[]" "[e, f, g, h, k]"] assms(3) show ?thesis
      by (simp add: odd_grid_def del: inversions.simps)
  qed
qed

lemma parity_swap_36:
  assumes "x = 0 \<and> y \<noteq> 0 \<or> y = 0 \<and> x \<noteq> 0"
    and "0 \<notin> set [a, b, c, e, f, h, k]" and "x \<notin> set [e, f]" and "y \<notin> set [e, f]"
  shows "odd_grid [[a, b, c], [x, e, f], [y, h, k]]
       = odd_grid [[a, b, c], [y, e, f], [x, h, k]]"
proof -
  from assms(1) consider "x = 0" "y \<noteq> 0" | "y = 0" "x \<noteq> 0" by blast
  then show ?thesis
  proof cases
    case 1
    with assms(2) have "tiles [[a, b, c], [x, e, f], [y, h, k]] = [a, b, c, e, f, y, h, k]"
      and "tiles [[a, b, c], [y, e, f], [x, h, k]] = [a, b, c, y, e, f, h, k]"
      by (simp_all add: tiles_def)
    with inversions_rotate[of y e f "[a, b, c]" "[h, k]"] assms(4) show ?thesis
      by (simp add: odd_grid_def del: inversions.simps)
  next
    case 2
    with assms(2) have "tiles [[a, b, c], [x, e, f], [y, h, k]] = [a, b, c, x, e, f, h, k]"
      and "tiles [[a, b, c], [y, e, f], [x, h, k]] = [a, b, c, e, f, x, h, k]"
      by (simp_all add: tiles_def)
    with inversions_rotate[of x e f "[a, b, c]" "[h, k]"] assms(3) show ?thesis
      by (simp add: odd_grid_def del: inversions.simps)
  qed
qed

lemma parity_swap_14:
  assumes "x = 0 \<and> y \<noteq> 0 \<or> y = 0 \<and> x \<noteq> 0"
    and "0 \<notin> set [a, c, d, f, g, h, k]" and "x \<notin> set [c, d]" and "y \<notin> set [c, d]"
  shows "odd_grid [[a, x, c], [d, y, f], [g, h, k]]
       = odd_grid [[a, y, c], [d, x, f], [g, h, k]]"
proof -
  from assms(1) consider "x = 0" "y \<noteq> 0" | "y = 0" "x \<noteq> 0" by blast
  then show ?thesis
  proof cases
    case 1
    with assms(2) have "tiles [[a, x, c], [d, y, f], [g, h, k]] = [a, c, d, y, f, g, h, k]"
      and "tiles [[a, y, c], [d, x, f], [g, h, k]] = [a, y, c, d, f, g, h, k]"
      by (simp_all add: tiles_def)
    with inversions_rotate[of y c d "[a]" "[f, g, h, k]"] assms(4) show ?thesis
      by (simp add: odd_grid_def del: inversions.simps)
  next
    case 2
    with assms(2) have "tiles [[a, x, c], [d, y, f], [g, h, k]] = [a, x, c, d, f, g, h, k]"
      and "tiles [[a, y, c], [d, x, f], [g, h, k]] = [a, c, d, x, f, g, h, k]"
      by (simp_all add: tiles_def)
    with inversions_rotate[of x c d "[a]" "[f, g, h, k]"] assms(3) show ?thesis
      by (simp add: odd_grid_def del: inversions.simps)
  qed
qed

lemma parity_swap_47:
  assumes "x = 0 \<and> y \<noteq> 0 \<or> y = 0 \<and> x \<noteq> 0"
    and "0 \<notin> set [a, b, c, d, f, g, k]" and "x \<notin> set [f, g]" and "y \<notin> set [f, g]"
  shows "odd_grid [[a, b, c], [d, x, f], [g, y, k]]
       = odd_grid [[a, b, c], [d, y, f], [g, x, k]]"
proof -
  from assms(1) consider "x = 0" "y \<noteq> 0" | "y = 0" "x \<noteq> 0" by blast
  then show ?thesis
  proof cases
    case 1
    with assms(2) have "tiles [[a, b, c], [d, x, f], [g, y, k]] = [a, b, c, d, f, g, y, k]"
      and "tiles [[a, b, c], [d, y, f], [g, x, k]] = [a, b, c, d, y, f, g, k]"
      by (simp_all add: tiles_def)
    with inversions_rotate[of y f g "[a, b, c, d]" "[k]"] assms(4) show ?thesis
      by (simp add: odd_grid_def del: inversions.simps)
  next
    case 2
    with assms(2) have "tiles [[a, b, c], [d, x, f], [g, y, k]] = [a, b, c, d, x, f, g, k]"
      and "tiles [[a, b, c], [d, y, f], [g, x, k]] = [a, b, c, d, f, g, x, k]"
      by (simp_all add: tiles_def)
    with inversions_rotate[of x f g "[a, b, c, d]" "[k]"] assms(3) show ?thesis
      by (simp add: odd_grid_def del: inversions.simps)
  qed
qed

lemma parity_swap_25:
  assumes "x = 0 \<and> y \<noteq> 0 \<or> y = 0 \<and> x \<noteq> 0"
    and "0 \<notin> set [a, b, d, e, g, h, k]" and "x \<notin> set [d, e]" and "y \<notin> set [d, e]"
  shows "odd_grid [[a, b, x], [d, e, y], [g, h, k]]
       = odd_grid [[a, b, y], [d, e, x], [g, h, k]]"
proof -
  from assms(1) consider "x = 0" "y \<noteq> 0" | "y = 0" "x \<noteq> 0" by blast
  then show ?thesis
  proof cases
    case 1
    with assms(2) have "tiles [[a, b, x], [d, e, y], [g, h, k]] = [a, b, d, e, y, g, h, k]"
      and "tiles [[a, b, y], [d, e, x], [g, h, k]] = [a, b, y, d, e, g, h, k]"
      by (simp_all add: tiles_def)
    with inversions_rotate[of y d e "[a, b]" "[g, h, k]"] assms(4) show ?thesis
      by (simp add: odd_grid_def del: inversions.simps)
  next
    case 2
    with assms(2) have "tiles [[a, b, x], [d, e, y], [g, h, k]] = [a, b, x, d, e, g, h, k]"
      and "tiles [[a, b, y], [d, e, x], [g, h, k]] = [a, b, d, e, x, g, h, k]"
      by (simp_all add: tiles_def)
    with inversions_rotate[of x d e "[a, b]" "[g, h, k]"] assms(3) show ?thesis
      by (simp add: odd_grid_def del: inversions.simps)
  qed
qed

lemma parity_swap_58:
  assumes "x = 0 \<and> y \<noteq> 0 \<or> y = 0 \<and> x \<noteq> 0"
    and "0 \<notin> set [a, b, c, d, e, g, h]" and "x \<notin> set [g, h]" and "y \<notin> set [g, h]"
  shows "odd_grid [[a, b, c], [d, e, x], [g, h, y]]
       = odd_grid [[a, b, c], [d, e, y], [g, h, x]]"
proof -
  from assms(1) consider "x = 0" "y \<noteq> 0" | "y = 0" "x \<noteq> 0" by blast
  then show ?thesis
  proof cases
    case 1
    with assms(2) have "tiles [[a, b, c], [d, e, x], [g, h, y]] = [a, b, c, d, e, g, h, y]"
      and "tiles [[a, b, c], [d, e, y], [g, h, x]] = [a, b, c, d, e, y, g, h]"
      by (simp_all add: tiles_def)
    with inversions_rotate[of y g h "[a, b, c, d, e]" "[]"] assms(4) show ?thesis
      by (simp add: odd_grid_def del: inversions.simps)
  next
    case 2
    with assms(2) have "tiles [[a, b, c], [d, e, x], [g, h, y]] = [a, b, c, d, e, x, g, h]"
      and "tiles [[a, b, c], [d, e, y], [g, h, x]] = [a, b, c, d, e, g, h, x]"
      by (simp_all add: tiles_def)
    with inversions_rotate[of x g h "[a, b, c, d, e]" "[]"] assms(3) show ?thesis
      by (simp add: odd_grid_def del: inversions.simps)
  qed
qed

lemmas parity_swap =
  parity_swap_01 parity_swap_12 parity_swap_34 parity_swap_45
  parity_swap_67 parity_swap_78 parity_swap_03 parity_swap_36
  parity_swap_14 parity_swap_47 parity_swap_25 parity_swap_58

text \<open>One legal move of a grid with nine different cells keeps the parity.\<close>

lemma blank_move_parity_grid:
  assumes "blank_move [[a, b, c], [d, e, f], [g, h, k]] t"
    and "distinct [a, b, c, d, e, f, g, h, k]"
  shows "odd_grid t = odd_grid [[a, b, c], [d, e, f], [g, h, k]]"
proof -
  from assms(1) have "three_by_three t" by (simp add: blank_move_def)
  then obtain a' b' c' d' e' f' g' h' k'
    where t: "t = [[a', b', c'], [d', e', f'], [g', h', k']]"
    by (rule three_by_three_cases)
  from assms(1) obtain p q where pq: "p \<in> set positions" "q \<in> set positions" "adjacent p q"
    "at [[a, b, c], [d, e, f], [g, h, k]] p = 0" "at t p = at [[a, b, c], [d, e, f], [g, h, k]] q"
    "at t q = 0"
    "\<forall>r\<in>set positions. r \<noteq> p \<and> r \<noteq> q \<longrightarrow> at t r = at [[a, b, c], [d, e, f], [g, h, k]] r"
    unfolding blank_move_def by blast
  from adj_enum[OF pq(1-3)]
  have "(p = (0, 0) \<and> q = (0, Suc 0)) \<or> (p = (0, 0) \<and> q = (Suc 0, 0))
      \<or> (p = (0, Suc 0) \<and> q = (0, 0)) \<or> (p = (0, Suc 0) \<and> q = (0, 2))
      \<or> (p = (0, Suc 0) \<and> q = (Suc 0, Suc 0))
      \<or> (p = (0, 2) \<and> q = (0, Suc 0)) \<or> (p = (0, 2) \<and> q = (Suc 0, 2))
      \<or> (p = (Suc 0, 0) \<and> q = (0, 0)) \<or> (p = (Suc 0, 0) \<and> q = (Suc 0, Suc 0))
      \<or> (p = (Suc 0, 0) \<and> q = (2, 0))
      \<or> (p = (Suc 0, Suc 0) \<and> q = (0, Suc 0)) \<or> (p = (Suc 0, Suc 0) \<and> q = (Suc 0, 0))
      \<or> (p = (Suc 0, Suc 0) \<and> q = (Suc 0, 2)) \<or> (p = (Suc 0, Suc 0) \<and> q = (2, Suc 0))
      \<or> (p = (Suc 0, 2) \<and> q = (0, 2)) \<or> (p = (Suc 0, 2) \<and> q = (Suc 0, Suc 0))
      \<or> (p = (Suc 0, 2) \<and> q = (2, 2))
      \<or> (p = (2, 0) \<and> q = (Suc 0, 0)) \<or> (p = (2, 0) \<and> q = (2, Suc 0))
      \<or> (p = (2, Suc 0) \<and> q = (2, 0)) \<or> (p = (2, Suc 0) \<and> q = (Suc 0, Suc 0))
      \<or> (p = (2, Suc 0) \<and> q = (2, 2))
      \<or> (p = (2, 2) \<and> q = (2, Suc 0)) \<or> (p = (2, 2) \<and> q = (Suc 0, 2))"
    by simp
  then show ?thesis
    using pq(4-) assms(2) unfolding t
    apply (elim disjE conjE; simp add: positions_eq at_def nth3)
    apply (rule parity_swap; auto)+
    done
qed

lemma blank_move_parity:
  assumes "valid_grid s" and "blank_move s t"
  shows "odd_grid t = odd_grid s"
proof -
  from assms(1) obtain a b c d e f g h k where s: "s = [[a, b, c], [d, e, f], [g, h, k]]"
    by (auto simp: valid_grid_def elim: three_by_three_cases)
  from valid_distinct[OF assms(1)] have "distinct [a, b, c, d, e, f, g, h, k]"
    unfolding s by simp
  with assms(2) show ?thesis
    unfolding s by (rule blank_move_parity_grid)
qed

lemma legal_path_parity:
  "legal_path p \<Longrightarrow> valid_grid (hd p) \<Longrightarrow> odd_grid (last p) = odd_grid (hd p)"
proof (induction p rule: legal_path.induct)
  case (3 s t rest)
  then have bm: "blank_move s t" and v: "valid_grid s" by simp_all
  from nbs_valid(2,3)[OF v, of t] bm have "valid_grid t" by simp
  with 3 blank_move_parity[OF v bm] show ?case by simp
qed simp_all

text \<open>No route joins two valid grids of different parity.\<close>

lemma route_parity:
  "valid_grid a \<Longrightarrow> route a b p \<Longrightarrow> odd_grid b = odd_grid a"
  using legal_path_parity[of p] by (auto simp: route_def)

section \<open>At most 181440 grids can be reached\<close>













text \<open>A valid grid from which \<open>goal_state\<close> cannot be reached.\<close>

lemma unsolvable_example:
  "valid_grid [[3, 2, 4], [7, 0, 1], [8, 5, 6]] \<and> \<not> solvable [[3, 2, 4], [7, 0, 1], [8, 5, 6]]"
proof
  show v: "valid_grid [[3, 2, 4], [7, 0, 1], [8, 5, 6]]"
    by (simp add: valid_grid_def three_by_three_def)
  have "odd_grid [[3, 2, 4], [7, 0, 1], [8, 5, 6]] \<and> \<not> odd_grid goal_state"
    by code_simp
  with route_parity[OF v] show "\<not> solvable [[3, 2, 4], [7, 0, 1], [8, 5, 6]]"
    by (auto simp: solvable_def)
qed

lemma unsolvable_returns_None:
  assumes "valid_grid init" and "\<not> solvable init"
  shows "solve_puzzle init = Some (Inr None)"
proof -
  from solve_puzzle_total[OF assms(1)] obtain r where
    r: "solve_puzzle init = Some (Inr r)" "result_ok init r" by blast
  from r(2) assms(2) have "r = None"
    by (cases r) (auto simp: result_ok_def solvable_def)
  with r(1) show ?thesis by simp
qed

section \<open>The heuristic\<close>

text \<open>
  C1. The claim: \<open>manhattan_distance\<close> is the sum of the L1 distances of the non-blank
  cells to their cells in the module-level \<open>goal_state\<close>, so it is 0 on \<open>goal_state\<close>.
  The function does not do that: on \<open>goal_state\<close> itself it returns 12, while the
  distance of \<open>goal_state\<close> to \<open>goal_state\<close>, computed as the claim words it, is 0.
\<close>

theorem manhattan_distance_goal_state:
  "manhattan_distance goal_state = Inr 12 \<and> distance_to goal_state goal_state = 0"
proof
  show "manhattan_distance goal_state = Inr 12"
    by (simp add: goal_state_def manhattan_grid tile_cost_def)
  show "distance_to goal_state goal_state = 0"
    by (simp add: distance_to_def goal_position_def goal_state_def positions_eq at_def nth3
          l1_distance_def)
qed

text \<open>
  C10. On every valid grid \<open>manhattan_distance\<close> is the distance to the fixed grid
  \<open>[[1,2,3],[4,5,6],[7,8,0]]\<close>, where the cell of a non-blank value \<open>v\<close> is
  \<open>divmod(v - 1, 3)\<close>; that grid is not the \<open>goal_state\<close> of the termination check.
\<close>

theorem manhattan_distance_solved_grid:
  assumes "valid_grid s"
  shows "manhattan_distance s = Inr (distance_to solved_grid s)
       \<and> (\<forall>v\<in>set (concat s). v \<noteq> 0 \<longrightarrow>
            goal_position solved_grid v = (nat ((v - 1) div 3), nat ((v - 1) mod 3)))
       \<and> solved_grid \<noteq> goal_state"
proof (intro conjI ballI impI)
  show "manhattan_distance s = Inr (distance_to solved_grid s)"
    using assms by (rule manhattan_is_distance_to_solved)
next
  fix v assume v: "v \<in> set (concat s)" "v \<noteq> 0"
  from assms have "set_mset (mset (concat s)) = set_mset (mset [0, 1, 2, 3, 4, 5, 6, 7, 8])"
    by (simp only: valid_grid_def)
  then have eq: "set (concat s) = set [0, 1, 2, 3, 4, 5, 6, 7, 8]"
    by (simp only: set_mset_mset)
  from v(1) have "v \<in> set [0, 1, 2, 3, 4, 5, 6, 7, 8]" by (simp only: eq)
  with v(2) consider "v = 1" | "v = 2" | "v = 3" | "v = 4" | "v = 5" | "v = 6" | "v = 7"
    | "v = 8"
    by auto
  then show "goal_position solved_grid v = (nat ((v - 1) div 3), nat ((v - 1) mod 3))"
    by cases (simp_all add: goal_position_solved numeral_2_eq_2)
next
  show "solved_grid \<noteq> goal_state"
    by (simp add: solved_grid_def goal_state_def)
qed

theorem manhattan_distance_solved_grid_witness:
  "valid_grid initial_state
   \<and> manhattan_distance initial_state = Inr 16
   \<and> distance_to solved_grid initial_state = 16
   \<and> goal_position solved_grid 7 = (nat ((7 - 1) div 3), nat ((7 - 1) mod 3))"
proof -
  have v: "valid_grid initial_state"
    by (simp add: valid_grid_def three_by_three_def initial_state_def)
  have m: "manhattan_distance initial_state = Inr 16"
    by (simp add: initial_state_def manhattan_grid tile_cost_def)
  have "7 \<in> set (concat initial_state)"
    by (simp add: initial_state_def)
  with manhattan_distance_solved_grid[OF v] m show ?thesis
    using v by auto
qed

section \<open>Neighbours\<close>

text \<open>
  C8. On a valid grid \<open>get_neighbors\<close> returns 2 grids when the blank is in a corner,
  3 when it is on an edge and 4 when it is in the centre, and each returned grid is a valid
  grid, one blank move away.
\<close>

theorem get_neighbors_count:
  assumes "valid_grid s"
  shows "\<exists>p ns. get_blank_position s = Inr (Some p) \<and> (corner p \<or> edge p \<or> center p)
           \<and> get_neighbors s = Inr ns
           \<and> (corner p \<longrightarrow> length ns = 2) \<and> (edge p \<longrightarrow> length ns = 3)
           \<and> (center p \<longrightarrow> length ns = 4)
           \<and> (\<forall>n\<in>set ns. valid_grid n \<and> blank_move s n)"
proof -
  from neighbors_props[OF valid_three_by_three[OF assms] valid_has_blank[OF assms]]
  obtain p ns where *: "get_blank_position s = Inr (Some p)" "p \<in> set positions"
    "get_neighbors s = Inr ns" "corner p \<longrightarrow> length ns = 2" "edge p \<longrightarrow> length ns = 3"
    "center p \<longrightarrow> length ns = 4" "\<forall>n\<in>set ns. moved s n \<and> blank_move s n"
    by blast
  from *(7) assms have "\<forall>n\<in>set ns. valid_grid n \<and> blank_move s n"
    by (blast intro: moved_valid)
  with * position_kind[OF *(2)] show ?thesis by blast
qed

theorem get_neighbors_count_witness:
  "valid_grid goal_state \<and> get_blank_position goal_state = Inr (Some (1, 1)) \<and> center (1, 1)
   \<and> (\<exists>ns. get_neighbors goal_state = Inr ns \<and> length ns = 4 \<and> (\<forall>n\<in>set ns. valid_grid n))"
proof -
  have v: "valid_grid goal_state"
    by (simp add: valid_grid_def three_by_three_def goal_state_def)
  have b: "get_blank_position goal_state = Inr (Some (1, 1))"
    by (simp add: goal_state_def blank_grid)
  have c: "center (1, 1)"
    by (simp add: center_def)
  from get_neighbors_count[OF v] b c v show ?thesis by auto
qed

section \<open>What \<open>solve_puzzle\<close> returns\<close>

text \<open>
  C2. On every valid grid from which \<open>goal_state\<close> can be reached, \<open>solve_puzzle\<close>
  returns a route to \<open>goal_state\<close> whose number of moves, its length minus one, is the
  least of any route: no sequence of legal moves from the initial grid to \<open>goal_state\<close> has
  fewer.
\<close>

theorem solve_puzzle_shortest:
  assumes "valid_grid init" and "solvable init"
  shows "\<exists>p. solve_puzzle init = Some (Inr (Some p)) \<and> route init goal_state p \<and>
           (\<forall>q. route init goal_state q \<longrightarrow> length p - 1 \<le> length q - 1)"
proof -
  from solve_puzzle_total[OF assms(1)] obtain r where
    r: "solve_puzzle init = Some (Inr r)" "result_ok init r" by blast
  with assms(2) obtain p where "r = Some p" "route init goal_state p"
    "\<forall>q. route init goal_state q \<longrightarrow> length p \<le> length q"
    by (cases r) (auto simp: result_ok_def)
  with r(1) show ?thesis by (auto intro: diff_le_mono)
qed

theorem solve_puzzle_shortest_witness:
  "valid_grid initial_state \<and> solvable initial_state \<and>
   (\<exists>p. solve_puzzle initial_state = Some (Inr (Some p)) \<and>
        route initial_state goal_state p \<and> length p - 1 \<le> 18)"
proof -
  let ?q = "[[[2, 1, 7], [8, 0, 6], [3, 4, 5]], [[2, 1, 7], [8, 4, 6], [3, 0, 5]],
    [[2, 1, 7], [8, 4, 6], [3, 5, 0]], [[2, 1, 7], [8, 4, 0], [3, 5, 6]],
    [[2, 1, 0], [8, 4, 7], [3, 5, 6]], [[2, 0, 1], [8, 4, 7], [3, 5, 6]],
    [[2, 4, 1], [8, 0, 7], [3, 5, 6]], [[2, 4, 1], [8, 7, 0], [3, 5, 6]],
    [[2, 4, 1], [8, 7, 6], [3, 5, 0]], [[2, 4, 1], [8, 7, 6], [3, 0, 5]],
    [[2, 4, 1], [8, 7, 6], [0, 3, 5]], [[2, 4, 1], [0, 7, 6], [8, 3, 5]],
    [[2, 4, 1], [7, 0, 6], [8, 3, 5]], [[2, 4, 1], [7, 3, 6], [8, 0, 5]],
    [[2, 4, 1], [7, 3, 6], [8, 5, 0]], [[2, 4, 1], [7, 3, 0], [8, 5, 6]],
    [[2, 4, 0], [7, 3, 1], [8, 5, 6]], [[2, 0, 4], [7, 3, 1], [8, 5, 6]],
    [[2, 3, 4], [7, 0, 1], [8, 5, 6]]] :: grid list"
  have v: "valid_grid initial_state"
    by (simp add: valid_grid_def three_by_three_def initial_state_def)
  have q: "route initial_state goal_state ?q"
    by code_simp
  then have s: "solvable initial_state"
    unfolding solvable_def by (rule exI)
  from solve_puzzle_shortest[OF v s] obtain p where
    p: "solve_puzzle initial_state = Some (Inr (Some p))" "route initial_state goal_state p"
    "\<forall>q. route initial_state goal_state q \<longrightarrow> length p - 1 \<le> length q - 1"
    by blast
  from p(3) q have "length p - 1 \<le> length ?q - 1" by blast
  with v s p(1,2) show ?thesis by auto
qed

text \<open>
  C4. On every valid grid from which \<open>goal_state\<close> can be reached, the returned sequence
  starts with the initial grid, ends with \<open>goal_state\<close>, and each grid in it comes from the
  one before by one exchange of the blank with an axis-adjacent tile.
\<close>

theorem solve_puzzle_path:
  assumes "valid_grid init" and "solvable init"
  shows "\<exists>p. solve_puzzle init = Some (Inr (Some p)) \<and> p \<noteq> [] \<and> hd p = init \<and>
           last p = goal_state \<and>
           (\<forall>i. Suc i < length p \<longrightarrow> blank_move (p ! i) (p ! Suc i) \<and> p ! i \<noteq> p ! Suc i)"
proof -
  from solve_puzzle_total[OF assms(1)] obtain r where
    r: "solve_puzzle init = Some (Inr r)" "result_ok init r" by blast
  with assms(2) obtain p where p: "r = Some p" "route init goal_state p"
    by (cases r) (auto simp: result_ok_def)
  then have lp: "legal_path p" and hd: "hd p = init" and "last p = goal_state"
    by (simp_all add: route_def)
  moreover have "blank_move (p ! i) (p ! Suc i) \<and> p ! i \<noteq> p ! Suc i" if "Suc i < length p" for i
  proof -
    from legal_path_nth[OF lp that] have bm: "blank_move (p ! i) (p ! Suc i)" .
    from legal_path_valid[OF lp, of i] hd assms(1) that have "valid_grid (p ! i)" by simp
    from blank_move_differs[OF this bm] bm show ?thesis by simp
  qed
  ultimately show ?thesis
    using r(1) p(1) legal_path_nonempty[OF lp] by blast
qed

theorem solve_puzzle_path_witness:
  "valid_grid [[2, 3, 4], [7, 1, 0], [8, 5, 6]] \<and> solvable [[2, 3, 4], [7, 1, 0], [8, 5, 6]] \<and>
   solve_puzzle [[2, 3, 4], [7, 1, 0], [8, 5, 6]] =
     Some (Inr (Some [[[2, 3, 4], [7, 1, 0], [8, 5, 6]], goal_state])) \<and>
   blank_move [[2, 3, 4], [7, 1, 0], [8, 5, 6]] goal_state"
proof -
  let ?g = "[[2, 3, 4], [7, 1, 0], [8, 5, 6]]"
  have v: "valid_grid ?g"
    by (simp add: valid_grid_def three_by_three_def)
  have "route ?g goal_state [?g, goal_state]"
    by code_simp
  then have s: "solvable ?g"
    unfolding solvable_def by (rule exI)
  have e: "solve_puzzle ?g = Some (Inr (Some [?g, goal_state]))"
    by code_simp
  from solve_puzzle_path[OF v s] e have "blank_move ([?g, goal_state] ! 0) ([?g, goal_state] ! Suc 0)"
    by auto
  with v s e show ?thesis by simp
qed

text \<open>
  C5. The claim: the result for "no solution" is never a null value that can be taken for
  an empty path. On the valid grid \<open>[[3,2,4],[7,0,1],[8,5,6]]\<close>, from which
  \<open>goal_state\<close> cannot be reached, the function returns \<open>None\<close>, Python's null, and
  the test \<open>if solution:\<close> of the caller gives \<open>None\<close> and the empty list the same
  answer.
\<close>

theorem no_solution_is_null:
  "valid_grid [[3, 2, 4], [7, 0, 1], [8, 5, 6]] \<and> \<not> solvable [[3, 2, 4], [7, 0, 1], [8, 5, 6]] \<and>
   solve_puzzle [[3, 2, 4], [7, 0, 1], [8, 5, 6]] = Some (Inr None) \<and>
   truthy None = truthy (Some [])"
  using unsolvable_example unsolvable_returns_None[of "[[3, 2, 4], [7, 0, 1], [8, 5, 6]]"]
  by (simp add: truthy_def)

text \<open>
  C5, as the program has it: on a valid grid the function returns \<open>None\<close> exactly when
  no route to \<open>goal_state\<close> exists. A returned sequence is never empty, so the test
  \<open>if solution:\<close> of the caller is true exactly when a solution exists, with no exception
  to handle.
\<close>

theorem no_solution_is_None:
  assumes "valid_grid init"
  shows "\<exists>r. solve_puzzle init = Some (Inr r) \<and> (r = None \<longleftrightarrow> \<not> solvable init) \<and>
           (truthy r \<longleftrightarrow> solvable init) \<and> r \<noteq> Some []"
proof -
  from solve_puzzle_total[OF assms] obtain r where
    r: "solve_puzzle init = Some (Inr r)" "result_ok init r" by blast
  show ?thesis
  proof (cases r)
    case None
    with r show ?thesis by (simp add: result_ok_def truthy_def)
  next
    case (Some p)
    with r(2) have rt: "route init goal_state p" by (simp add: result_ok_def)
    then have "p \<noteq> []" by (auto simp: route_def legal_path_nonempty)
    moreover from rt have "solvable init" by (auto simp: solvable_def)
    ultimately show ?thesis using r(1) Some by (simp add: truthy_def)
  qed
qed

theorem no_solution_is_None_witness:
  "valid_grid [[3, 2, 4], [7, 0, 1], [8, 5, 6]] \<and> \<not> solvable [[3, 2, 4], [7, 0, 1], [8, 5, 6]] \<and>
   solve_puzzle [[3, 2, 4], [7, 0, 1], [8, 5, 6]] = Some (Inr None) \<and> \<not> truthy None \<and>
   valid_grid goal_state \<and> solvable goal_state \<and>
   solve_puzzle goal_state = Some (Inr (Some [goal_state])) \<and> truthy (Some [goal_state])"
proof -
  have v: "valid_grid goal_state"
    by (simp add: valid_grid_def three_by_three_def goal_state_def)
  have e: "solve_puzzle goal_state = Some (Inr (Some [goal_state]))"
    by code_simp
  from unsolvable_example have u: "valid_grid [[3, 2, 4], [7, 0, 1], [8, 5, 6]]"
    "\<not> solvable [[3, 2, 4], [7, 0, 1], [8, 5, 6]]" by simp_all
  from no_solution_is_None[OF u(1)] u(2)
  have "solve_puzzle [[3, 2, 4], [7, 0, 1], [8, 5, 6]] = Some (Inr None)" by auto
  moreover from no_solution_is_None[OF v] e have "solvable goal_state" "truthy (Some [goal_state])"
    by auto
  ultimately show ?thesis using u v e by (simp add: truthy_def)
qed

section \<open>Termination\<close>



section \<open>Input validation\<close>

text \<open>
  C6. The claim: an input that is not a 3x3 grid with each of 0..8 once raises
  \<open>InvalidGridError\<close> at entry. The program has no such check and no such error: the grid
  \<open>[[1,1,1],[1,0,1],[1,1,1]]\<close> is searched like any other and \<open>None\<close> is returned.
\<close>

theorem invalid_grid_not_rejected:
  "\<not> valid_grid [[1, 1, 1], [1, 0, 1], [1, 1, 1]] \<and>
   solve_puzzle [[1, 1, 1], [1, 0, 1], [1, 1, 1]] = Some (Inr None)"
proof
  have "count (mset (concat [[1, 1, 1], [1, 0, 1], [1, 1, 1::int]])) 1
      \<noteq> count (mset [0, 1, 2, 3, 4, 5, 6, 7, 8::int]) 1"
    by simp
  then show "\<not> valid_grid [[1, 1, 1], [1, 0, 1], [1, 1, 1]]"
    unfolding valid_grid_def by metis
  show "solve_puzzle [[1, 1, 1], [1, 0, 1], [1, 1, 1]] = Some (Inr None)"
    by code_simp
qed

text \<open>
  C6, as the program has it: on a well-formed grid \<open>solve_puzzle\<close> returns and raises
  nothing. (What a malformed grid does is left to the subscripts and the unpacking that fail
  on it.)
\<close>

theorem valid_grid_no_error:
  assumes "valid_grid init"
  shows "solve_puzzle init \<noteq> None \<and> (\<forall>e. solve_puzzle init \<noteq> Some (Inl e))"
  using solve_puzzle_total[OF assms] by auto

theorem valid_grid_no_error_witness:
  "valid_grid goal_state \<and> solve_puzzle goal_state \<noteq> None \<and>
   solve_puzzle goal_state \<noteq> Some (Inl IndexError) \<and>
   solve_puzzle goal_state \<noteq> Some (Inl TypeError)"
proof -
  have v: "valid_grid goal_state"
    by (simp add: valid_grid_def three_by_three_def goal_state_def)
  from valid_grid_no_error[OF v] v show ?thesis by simp
qed

section \<open>The order of pops\<close>

text \<open>
  C7. The claim: among frontier nodes of equal least \<open>f\<close> the one pushed first is popped
  first. From \<open>[[2,7,3],[4,0,1],[8,5,6]]\<close> the third pass pops another node than the
  first-pushed one of least \<open>f\<close>, although both lists hold the same nodes and the two nodes
  have the same \<open>f\<close>.
\<close>

theorem pop_ignores_insertion_order:
  "Some (fst (heappop (fst (passes_ordered 2
       ([PuzzleNode [[2, 7, 3], [4, 0, 1], [8, 5, 6]] None 0 10], {},
        [PuzzleNode [[2, 7, 3], [4, 0, 1], [8, 5, 6]] None 0 10])))))
   \<noteq> stable_pop (snd (snd (passes_ordered 2
       ([PuzzleNode [[2, 7, 3], [4, 0, 1], [8, 5, 6]] None 0 10], {},
        [PuzzleNode [[2, 7, 3], [4, 0, 1], [8, 5, 6]] None 0 10]))))
   \<and> map_option node_f (stable_pop (snd (snd (passes_ordered 2
       ([PuzzleNode [[2, 7, 3], [4, 0, 1], [8, 5, 6]] None 0 10], {},
        [PuzzleNode [[2, 7, 3], [4, 0, 1], [8, 5, 6]] None 0 10])))))
     = Some (node_f (fst (heappop (fst (passes_ordered 2
       ([PuzzleNode [[2, 7, 3], [4, 0, 1], [8, 5, 6]] None 0 10], {},
        [PuzzleNode [[2, 7, 3], [4, 0, 1], [8, 5, 6]] None 0 10]))))))
   \<and> manhattan_distance [[2, 7, 3], [4, 0, 1], [8, 5, 6]] = Inr 10"
  by code_simp

text \<open>
  C7, as the program has it: in every pass the popped node is one of the frontier and no
  node of the frontier has a smaller \<open>f\<close>.
\<close>

theorem pop_least_f:
  assumes "passes k (start_state init) = (ol, cl)" and "ol \<noteq> []"
  shows "fst (heappop ol) \<in> set ol \<and> (\<forall>m\<in>set ol. node_f (fst (heappop ol)) \<le> node_f m)"
proof -
  have "is_heap (fst (start_state init))"
    by (simp add: start_state_def is_heap_single)
  from passes_heap[OF this, of k] assms(1) have h: "is_heap ol" by simp
  from heappop_props[OF h assms(2), of "fst (heappop ol)" "snd (heappop ol)"] assms(2)
  have "fst (heappop ol) \<in> set ol" by (cases ol) auto
  with heappop_least[OF h assms(2)] show ?thesis by blast
qed

theorem pop_least_f_witness:
  "length (fst (passes 1 (start_state [[2, 7, 3], [4, 0, 1], [8, 5, 6]]))) = 4 \<and>
   list_all
     (\<lambda>m. node_f (fst (heappop (fst (passes 1 (start_state [[2, 7, 3], [4, 0, 1], [8, 5, 6]])))))
            \<le> node_f m)
     (fst (passes 1 (start_state [[2, 7, 3], [4, 0, 1], [8, 5, 6]])))"
proof -
  let ?s = "passes 1 (start_state [[2, 7, 3], [4, 0, 1], [8, 5, 6]])"
  have l: "length (fst ?s) = 4" by code_simp
  then have ne: "fst ?s \<noteq> []" by auto
  from pop_least_f[of 1 "[[2, 7, 3], [4, 0, 1], [8, 5, 6]]" "fst ?s" "snd ?s"] ne l
  show ?thesis by (simp add: list_all_iff)
qed

section \<open>Explored grids\<close>

text \<open>
  C3. The claim: a popped node whose grid is already in the explored set is discarded
  without being expanded. From \<open>[[0,4,6],[2,1,3],[7,8,5]]\<close> the grid of the node popped
  in the thirteenth pass is in the explored set, and that pass leaves a frontier one node
  longer: the node is expanded and two neighbours are pushed for it.
\<close>

theorem explored_grid_expanded_again:
  "node_state (fst (heappop (fst (passes 12 (start_state [[0, 4, 6], [2, 1, 3], [7, 8, 5]])))))
     \<in> snd (passes 12 (start_state [[0, 4, 6], [2, 1, 3], [7, 8, 5]]))
   \<and> length (fst (passes 13 (start_state [[0, 4, 6], [2, 1, 3], [7, 8, 5]])))
     = length (fst (passes 12 (start_state [[0, 4, 6], [2, 1, 3], [7, 8, 5]]))) + 1
   \<and> manhattan_distance [[0, 4, 6], [2, 1, 3], [7, 8, 5]]
     = Inr (hval [[0, 4, 6], [2, 1, 3], [7, 8, 5]])"
  by code_simp

text \<open>
  C3, as the program has it: a popped node that is not the goal is expanded whether or not
  its grid is in the explored set. Its grid is added to the explored set and a node is pushed
  for every neighbour that is not in the explored set; an explored grid is only kept from
  being pushed.
\<close>

theorem popped_node_expanded:
  assumes "heappop ol = (n, rest)" and "valid_grid (node_state n)"
    and "node_state n \<noteq> goal_state"
  shows "\<exists>ol'. search_step ol cl = Next ol' (insert (node_state n) cl) \<and>
           mset ol' = mset rest +
             mset (map (child n)
                    (filter (\<lambda>t. t \<notin> insert (node_state n) cl) (nbs (node_state n))))"
  using assms by (rule search_step_expands)

theorem popped_node_expanded_witness:
  "initial_state \<in> {initial_state} \<and> valid_grid initial_state \<and> initial_state \<noteq> goal_state \<and>
   (\<exists>ol'. search_step [PuzzleNode initial_state None 0 16] {initial_state}
            = Next ol' {initial_state} \<and> size (mset ol') = 4)"
proof -
  let ?n = "PuzzleNode initial_state None 0 16"
  have v: "valid_grid (node_state ?n)"
    by (simp add: valid_grid_def three_by_three_def initial_state_def)
  have g: "node_state ?n \<noteq> goal_state"
    by (simp add: initial_state_def goal_state_def)
  have nb: "nbs initial_state =
      [[[2, 1, 7], [8, 4, 6], [3, 0, 5]], [[2, 0, 7], [8, 1, 6], [3, 4, 5]],
       [[2, 1, 7], [8, 6, 0], [3, 4, 5]], [[2, 1, 7], [0, 8, 6], [3, 4, 5]]]"
    by (simp add: nbs_def initial_state_def get_neighbors_def blank_grid neighbors_at)
  let ?new = "map (child ?n)
        (filter (\<lambda>t. t \<notin> insert (node_state ?n) {initial_state}) (nbs (node_state ?n)))"
  from popped_node_expanded[OF heappop_single v g, of "{initial_state}"] obtain ol' where
    st: "search_step [?n] {initial_state} = Next ol' (insert (node_state ?n) {initial_state})"
    and ms: "mset ol' = mset [] + mset ?new"
    by blast
  have "length ?new = 4"
    by (simp add: nb) (simp add: initial_state_def)
  moreover from arg_cong[OF ms, of size] have "size (mset ol') = length ?new"
    by (simp only: mset.simps empty_neutral size_mset)
  ultimately have "size (mset ol') = 4" by (simp only:)
  with st v g show ?thesis by auto
qed

end
